theory Spec2Isabelle
  imports Complex_Main "HOL-Library.Sublist"
begin

section \<open>JavaScript strings and the built-ins the source calls\<close>

text \<open>
  A JavaScript string is a sequence of UTF-16 code units. It is modelled as the list of
  its code units, each a natural number; \<open>js\<close> turns a literal of the source into that
  list. Numbers that the source handles as exit codes are integers or \<open>NaN\<close>; the
  rounding of doubles beyond \<open>2^53\<close> is not modelled.
\<close>

type_synonym jsstring = "nat list"

definition js :: "string \<Rightarrow> jsstring" where
  "js s = map of_char s"

datatype jsnum = NaN | Num int

datatype error = TypeError | SyntaxError | TransportError jsstring

text \<open>Reading index \<open>i\<close> of an array: \<open>None\<close> is the \<open>undefined\<close> of an index out of range.\<close>

definition at_index :: "'a list \<Rightarrow> nat \<Rightarrow> 'a option" where
  "at_index xs i = (if i < length xs then Some (xs ! i) else None)"

text \<open>
  \<open>String.prototype.trim\<close> strips WhiteSpace and LineTerminator code units from both
  ends: TAB, LF, VT, FF, CR, SP, NBSP, U+1680, U+2000 to U+200A, U+2028, U+2029, U+202F,
  U+205F, U+3000 and U+FEFF.
\<close>

definition isWhiteSpace :: "nat \<Rightarrow> bool" where
  "isWhiteSpace c \<longleftrightarrow>
     (9 \<le> c \<and> c \<le> 13) \<or> c = 32 \<or> c = 160 \<or> c = 5760 \<or> (8192 \<le> c \<and> c \<le> 8202) \<or>
     c = 8232 \<or> c = 8233 \<or> c = 8239 \<or> c = 8287 \<or> c = 12288 \<or> c = 65279"

definition trim :: "jsstring \<Rightarrow> jsstring" where
  "trim s = rev (dropWhile isWhiteSpace (rev (dropWhile isWhiteSpace s)))"

text \<open>
  \<open>String.prototype.split\<close> with a string separator. \<open>split_first\<close> finds the leftmost
  occurrence of the separator and returns what is before and what is after it; \<open>js_split\<close>
  repeats that on the rest. With the empty separator the string falls into its code units.
\<close>

fun split_first :: "'a list \<Rightarrow> 'a list \<Rightarrow> ('a list \<times> 'a list) option" where
  "split_first sep [] = None"
| "split_first sep (c # cs) =
     (if prefix sep (c # cs) then Some ([], drop (length sep) (c # cs))
      else map_option (\<lambda>(a, b). (c # a, b)) (split_first sep cs))"

function js_split :: "'a list \<Rightarrow> 'a list \<Rightarrow> 'a list list" where
  "js_split sep s =
     (if sep = [] then map (\<lambda>c. [c]) s
      else case split_first sep s of
             None \<Rightarrow> [s]
           | Some (a, b) \<Rightarrow> a # js_split sep b)"
  by pat_completeness auto
termination
proof (relation "measure (\<lambda>(sep, s). length s)")
  show "wf (measure (\<lambda>(sep :: 'a list, s :: 'a list). length s))"
    by simp
next
  fix sep s :: "'a list" and x2 :: "'a list \<times> 'a list" and a b :: "'a list"
  assume ne: "sep \<noteq> []" and sf: "split_first sep s = Some x2" and x2: "(a, b) = x2"
  have shorter: "split_first sep t = Some (u, b) \<Longrightarrow> length b < length t" for t u
  proof (induction t arbitrary: u)
    case Nil
    then show ?case by simp
  next
    case (Cons c cs)
    show ?case
    proof (cases "prefix sep (c # cs)")
      case True
      with Cons.prems ne show ?thesis by auto
    next
      case False
      with Cons.prems obtain u' where "split_first sep cs = Some (u', b)"
        by auto
      with Cons.IH show ?thesis by fastforce
    qed
  qed
  from sf x2 have "length b < length s"
    using shorter [of s a] by simp
  then show "((sep, b), (sep, s)) \<in> measure (\<lambda>(sep, s). length s)"
    by simp
qed

declare js_split.simps [simp del]

text \<open>\<open>Array.prototype.join\<close> on an array of strings.\<close>

fun js_join :: "'a list \<Rightarrow> 'a list list \<Rightarrow> 'a list" where
  "js_join sep [] = []"
| "js_join sep [x] = x"
| "js_join sep (x # y # ys) = x @ sep @ js_join sep (y # ys)"

text \<open>
  \<open>String.prototype.indexOf\<close>: the index of the leftmost occurrence, or \<open>-1\<close>.
\<close>

fun indexOf_from :: "nat \<Rightarrow> 'a list \<Rightarrow> 'a list \<Rightarrow> int" where
  "indexOf_from i needle [] = (if needle = [] then int i else - 1)"
| "indexOf_from i needle (c # cs) =
     (if prefix needle (c # cs) then int i else indexOf_from (Suc i) needle cs)"

definition indexOf :: "'a list \<Rightarrow> 'a list \<Rightarrow> int" where
  "indexOf s needle = indexOf_from 0 needle s"

text \<open>
  \<open>parseInt(s, 10)\<close>: leading white space is skipped, one sign is read, then the longest
  run of decimal digits; with no digit the result is \<open>NaN\<close>. Radix 10 reads no
  \<open>0x\<close> prefix.
\<close>

definition isDigit :: "nat \<Rightarrow> bool" where
  "isDigit c \<longleftrightarrow> 48 \<le> c \<and> c \<le> 57"

definition digits_value :: "nat list \<Rightarrow> nat" where
  "digits_value ds = foldl (\<lambda>a d. 10 * a + (d - 48)) 0 ds"

definition parseInt :: "jsstring \<Rightarrow> jsnum" where
  "parseInt s =
     (let s1 = dropWhile isWhiteSpace s;
          sign = (if s1 \<noteq> [] \<and> hd s1 = 45 then - 1 else 1);
          s2 = (if s1 \<noteq> [] \<and> (hd s1 = 43 \<or> hd s1 = 45) then tl s1 else s1);
          z = takeWhile isDigit s2
      in if z = [] then NaN else Num (sign * int (digits_value z)))"

section \<open>The probe protocol codec of server-info.js\<close>

text \<open>
  The sentinels. The constants \<open>prefix\<close> and \<open>suffix\<close> of the source are \<open>prefix_mark\<close> and
  \<open>suffix_mark\<close> here, since \<open>prefix\<close> and \<open>suffix\<close> are the list predicates of the library.
\<close>

definition prefix_mark :: jsstring where
  "prefix_mark = js ''<============mup-var-start========''"

definition suffix_mark :: jsstring where
  "suffix_mark = js ''================mup-var-stop=====>''"

definition codeSeperator :: jsstring where
  "codeSeperator = js ''mup-var-code=======''"

text \<open>
  One decoded frame \<open>{name, output, code}\<close>; the field \<open>output\<close> is \<open>output_str\<close> here.
\<close>

record frame =
  name :: jsstring
  output_str :: jsstring
  code :: jsnum

text \<open>
  The callback of \<open>collectors.map\<close> in \<open>seperateCollectors\<close>. Index 0 of a split always
  exists. Index 1 is \<open>undefined\<close> when the separator does not occur: then
  \<open>.split\<close> (for the stop sentinel) or \<open>.trim\<close> (for the code separator) is called on
  \<open>undefined\<close> and throws a TypeError.
\<close>

definition collectorFrame :: "jsstring \<Rightarrow> error + frame" where
  "collectorFrame collectorOutput =
     (case at_index (js_split suffix_mark collectorOutput) 0 of
        None \<Rightarrow> Inl TypeError
      | Some name0 \<Rightarrow>
          (case at_index (js_split suffix_mark collectorOutput) 1 of
             None \<Rightarrow> Inl TypeError
           | Some rest \<Rightarrow>
               (case at_index (js_split codeSeperator rest) 0 of
                  None \<Rightarrow> Inl TypeError
                | Some commandOutput \<Rightarrow>
                    (case at_index (js_split codeSeperator collectorOutput) 1 of
                       None \<Rightarrow> Inl TypeError
                     | Some c \<Rightarrow>
                         Inr \<lparr>name = trim name0, output_str = trim commandOutput,
                              code = parseInt (trim c)\<rparr>))))"

text \<open>\<open>Array.prototype.map\<close> with a callback that may throw: the first throw ends the map.\<close>

fun map_throwing :: "('a \<Rightarrow> error + 'b) \<Rightarrow> 'a list \<Rightarrow> error + 'b list" where
  "map_throwing f [] = Inr []"
| "map_throwing f (x # xs) =
     (case f x of
        Inl e \<Rightarrow> Inl e
      | Inr y \<Rightarrow> (case map_throwing f xs of Inl e \<Rightarrow> Inl e | Inr ys \<Rightarrow> Inr (y # ys)))"

text \<open>\<open>collectors.shift()\<close> drops the text before the first start sentinel.\<close>

definition seperateCollectors :: "jsstring \<Rightarrow> error + frame list" where
  "seperateCollectors out = map_throwing collectorFrame (tl (js_split prefix_mark out))"





section \<open>JSON values and \<open>JSON.parse\<close>\<close>

text \<open>
  The values the probe parsers return: \<open>null\<close>, the results of \<open>JSON.parse\<close>, and
  strings. A number is kept as the exact decimal it denotes (JavaScript rounds it to the
  nearest double). An object is the list of its properties in the order of their first
  occurrence; a repeated key keeps its place and takes the later value.
\<close>

datatype json =
    JNull
  | JBool bool
  | JNumber rat
  | JString jsstring
  | JArray "json list"
  | JObject "(jsstring \<times> json) list"

definition isArray :: "json \<Rightarrow> bool" where
  "isArray v = (case v of JArray xs \<Rightarrow> True | _ \<Rightarrow> False)"

definition obj_put :: "(jsstring \<times> json) list \<Rightarrow> jsstring \<Rightarrow> json \<Rightarrow> (jsstring \<times> json) list" where
  "obj_put ps k v =
     (if k \<in> fst ` set ps then map (\<lambda>(k', v'). if k' = k then (k', v) else (k', v')) ps
      else ps @ [(k, v)])"

text \<open>JSON white space is TAB, LF, CR and SP only.\<close>

definition isJSONWhiteSpace :: "nat \<Rightarrow> bool" where
  "isJSONWhiteSpace c \<longleftrightarrow> c = 9 \<or> c = 10 \<or> c = 13 \<or> c = 32"

definition skip_ws :: "jsstring \<Rightarrow> jsstring" where
  "skip_ws s = dropWhile isJSONWhiteSpace s"

definition hex_value :: "nat \<Rightarrow> nat option" where
  "hex_value c =
     (if 48 \<le> c \<and> c \<le> 57 then Some (c - 48)
      else if 97 \<le> c \<and> c \<le> 102 then Some (c - 87)
      else if 65 \<le> c \<and> c \<le> 70 then Some (c - 55)
      else None)"

text \<open>The character an escape \<open>\\c\<close> stands for (\<open>\\u\<close> is handled apart).\<close>

definition escape_char :: "nat \<Rightarrow> nat option" where
  "escape_char e =
     (if e = 34 then Some 34 else if e = 92 then Some 92 else if e = 47 then Some 47
      else if e = 98 then Some 8 else if e = 102 then Some 12 else if e = 110 then Some 10
      else if e = 114 then Some 13 else if e = 116 then Some 9 else None)"

text \<open>
  The characters of a string after its opening quote, up to the closing quote: the
  decoded code units and the text after the closing quote. A raw control character
  below U+0020 is not allowed.
\<close>

fun json_string :: "jsstring \<Rightarrow> (jsstring \<times> jsstring) option" where
  "json_string [] = None"
| "json_string (c # cs) =
     (if c = 34 then Some ([], cs)
      else if c = 92 then
        (case cs of
           [] \<Rightarrow> None
         | e # r \<Rightarrow>
             if e = 117 then
               (case r of
                  h1 # h2 # h3 # h4 # r' \<Rightarrow>
                    (case (hex_value h1, hex_value h2, hex_value h3, hex_value h4) of
                       (Some a, Some b, Some c', Some d) \<Rightarrow>
                         map_option (\<lambda>(x, t). ((((a * 16 + b) * 16 + c') * 16 + d) # x, t))
                           (json_string r')
                     | _ \<Rightarrow> None)
                | _ \<Rightarrow> None)
             else
               (case escape_char e of
                  None \<Rightarrow> None
                | Some u \<Rightarrow> map_option (\<lambda>(x, t). (u # x, t)) (json_string r)))
      else if c < 32 then None
      else map_option (\<lambda>(x, t). (c # x, t)) (json_string cs))"

text \<open>
  A number: an optional minus, \<open>0\<close> or a run of digits that does not start with \<open>0\<close>,
  an optional fraction, an optional exponent.
\<close>

definition pow10 :: "int \<Rightarrow> rat" where
  "pow10 e = (if 0 \<le> e then 10 ^ nat e else 1 / 10 ^ nat (- e))"

definition frac_part :: "jsstring \<Rightarrow> (nat list \<times> jsstring) option" where
  "frac_part s =
     (case s of
        [] \<Rightarrow> Some ([], [])
      | c # r \<Rightarrow>
          if c = 46 then
            (if takeWhile isDigit r = [] then None
             else Some (takeWhile isDigit r, dropWhile isDigit r))
          else Some ([], s))"

definition exp_part :: "jsstring \<Rightarrow> (int \<times> jsstring) option" where
  "exp_part s =
     (case s of
        [] \<Rightarrow> Some (0, [])
      | c # r \<Rightarrow>
          if c = 101 \<or> c = 69 then
            (let sg = (if r \<noteq> [] \<and> hd r = 45 then - 1 else 1);
                 r1 = (if r \<noteq> [] \<and> (hd r = 43 \<or> hd r = 45) then tl r else r)
             in if takeWhile isDigit r1 = [] then None
                else Some (sg * int (digits_value (takeWhile isDigit r1)), dropWhile isDigit r1))
          else Some (0, s))"

definition number_body :: "jsstring \<Rightarrow> (rat \<times> jsstring) option" where
  "number_body s =
     (case s of
        [] \<Rightarrow> None
      | d # r \<Rightarrow>
          if \<not> isDigit d then None
          else
            (case frac_part (if d = 48 then r else dropWhile isDigit s) of
               None \<Rightarrow> None
             | Some (fd, s3) \<Rightarrow>
                 (case exp_part s3 of
                    None \<Rightarrow> None
                  | Some (e, s4) \<Rightarrow>
                      Some (of_nat (digits_value
                                     ((if d = 48 then [d] else takeWhile isDigit s) @ fd))
                              * pow10 (e - int (length fd)), s4))))"

definition json_number :: "jsstring \<Rightarrow> (rat \<times> jsstring) option" where
  "json_number s =
     (case s of
        [] \<Rightarrow> None
      | c # r \<Rightarrow>
          if c = 45 then map_option (\<lambda>(q, t). (- q, t)) (number_body r) else number_body s)"

text \<open>
  The recursive descent over values, array elements and object members. Each call
  consumes at least one code unit, so the fuel \<open>length text\<close> that \<open>JSON_parse\<close> gives is
  never used up (\<open>parse_value_fuel_enough\<close> below). \<open>parse_elements\<close> and \<open>parse_members\<close>
  start at the first code unit of an element or a key, after the white space.
\<close>

fun parse_value :: "nat \<Rightarrow> jsstring \<Rightarrow> (json \<times> jsstring) option"
  and parse_elements :: "nat \<Rightarrow> json list \<Rightarrow> jsstring \<Rightarrow> (json \<times> jsstring) option"
  and parse_members :: "nat \<Rightarrow> (jsstring \<times> json) list \<Rightarrow> jsstring \<Rightarrow> (json \<times> jsstring) option"
where
  "parse_value 0 s = None"
| "parse_value (Suc n) s =
     (case s of
        [] \<Rightarrow> None
      | c # r \<Rightarrow>
          if c = 123 then
            (case skip_ws r of
               [] \<Rightarrow> None
             | d # r' \<Rightarrow> if d = 125 then Some (JObject [], r') else parse_members n [] (d # r'))
          else if c = 91 then
            (case skip_ws r of
               [] \<Rightarrow> None
             | d # r' \<Rightarrow> if d = 93 then Some (JArray [], r') else parse_elements n [] (d # r'))
          else if c = 34 then map_option (\<lambda>(x, t). (JString x, t)) (json_string r)
          else if prefix (js ''true'') s then Some (JBool True, drop 4 s)
          else if prefix (js ''false'') s then Some (JBool False, drop 5 s)
          else if prefix (js ''null'') s then Some (JNull, drop 4 s)
          else map_option (\<lambda>(x, t). (JNumber x, t)) (json_number s))"
| "parse_elements 0 acc s = None"
| "parse_elements (Suc n) acc s =
     (case parse_value n s of
        None \<Rightarrow> None
      | Some (v, r) \<Rightarrow>
          (case skip_ws r of
             [] \<Rightarrow> None
           | d # r' \<Rightarrow>
               if d = 44 then parse_elements n (acc @ [v]) (skip_ws r')
               else if d = 93 then Some (JArray (acc @ [v]), r')
               else None))"
| "parse_members 0 acc s = None"
| "parse_members (Suc n) acc s =
     (case s of
        [] \<Rightarrow> None
      | c # r \<Rightarrow>
          if c \<noteq> 34 then None
          else
            (case json_string r of
               None \<Rightarrow> None
             | Some (k, r1) \<Rightarrow>
                 (case skip_ws r1 of
                    [] \<Rightarrow> None
                  | d # r2 \<Rightarrow>
                      if d \<noteq> 58 then None
                      else
                        (case parse_value n (skip_ws r2) of
                           None \<Rightarrow> None
                         | Some (v, r3) \<Rightarrow>
                             (case skip_ws r3 of
                                [] \<Rightarrow> None
                              | d' # r4 \<Rightarrow>
                                  if d' = 44 then parse_members n (obj_put acc k v) (skip_ws r4)
                                  else if d' = 125 then Some (JObject (obj_put acc k v), r4)
                                  else None)))))"

text \<open>
  \<open>JSON.parse(text)\<close>: one value with white space around it and nothing else, or a
  SyntaxError.
\<close>

definition JSON_parse :: "jsstring \<Rightarrow> error + json" where
  "JSON_parse text =
     (case parse_value (length text) (skip_ws text) of
        None \<Rightarrow> Inl SyntaxError
      | Some (v, r) \<Rightarrow> if skip_ws r = [] then Inr v else Inl SyntaxError)"

section \<open>The probe registry and its parsers\<close>

definition parseJSONArray :: "jsstring \<Rightarrow> jsnum \<Rightarrow> json" where
  "parseJSONArray stdout c =
     (if c = Num 0 then
        (let output0 = js_join (js '','') (js_split [10] stdout);
             output1 = js ''['' @ output0 @ js '']''
         in case JSON_parse output1 of
              Inl e \<Rightarrow> JNull
            | Inr result \<Rightarrow> if \<not> isArray result then JArray [result] else result)
      else JNull)"

definition swarm_parser :: "jsstring \<Rightarrow> jsnum \<Rightarrow> json" where
  "swarm_parser stdout c =
     (if c = Num 0 then (case JSON_parse stdout of Inl e \<Rightarrow> JNull | Inr v \<Rightarrow> v)
      else JNull)"

definition swarmToken_parser :: "jsstring \<Rightarrow> jsnum \<Rightarrow> json" where
  "swarmToken_parser stdout c =
     (if c = Num 0 \<and> indexOf stdout (js ''Error response'') = - 1 then JString (trim stdout)
      else JNull)"

record collector =
  command :: jsstring
  parser :: "jsstring \<Rightarrow> jsnum \<Rightarrow> json"

text \<open>
  The object \<open>_collectors\<close>, as the list of its keys and values in key order. Code unit
  39 is the single quote that closes a command.
\<close>

definition collectors :: "(jsstring \<times> collector) list" where
  \<open>collectors =
     [(js ''swarm'',
         \<lparr>command = js ''docker info --format '{{json .Swarm}}'' @ [39], parser = swarm_parser\<rparr>),
      (js ''swarmNodes'',
         \<lparr>command = js ''docker node inspect $(docker node ls -q) --format '{{json .}}'' @ [39],
          parser = parseJSONArray\<rparr>),
      (js ''swarmToken'',
         \<lparr>command = js ''docker swarm join-token worker -q'', parser = swarmToken_parser\<rparr>),
      (js ''swarmServices'',
         \<lparr>command = js ''docker service ls --format '{{json .}}'' @ [39], parser = parseJSONArray\<rparr>),
      (js ''images'',
         \<lparr>command = js ''docker images --format '{{json .}}'' @ [39], parser = parseJSONArray\<rparr>)]\<close>

definition generateVarCommand :: "jsstring \<Rightarrow> jsstring \<Rightarrow> jsstring" where
  \<open>generateVarCommand key cmd =
     [10] @ js ''  echo "'' @ prefix_mark @ key @ suffix_mark @ js ''"'' @ [10] @
     js ''  '' @ cmd @ js '' 2>&1'' @ [10] @
     js ''  echo "'' @ codeSeperator @ js ''"'' @ [10] @
     js ''  echo $?'' @ [10] @
     js ''  ''\<close>

definition generateScript :: jsstring where
  "generateScript =
     foldl (\<lambda>script (key, collector). script @ generateVarCommand key (command collector))
       [] collectors"

text \<open>
  \<open>_collectors[name].parser(output, code)\<close>: for a name that is no key of the registry
  the lookup gives no collector and reading \<open>.parser\<close> throws a TypeError.
\<close>

definition parseCollectorOutput :: "jsstring \<Rightarrow> jsstring \<Rightarrow> jsnum \<Rightarrow> error + json" where
  "parseCollectorOutput nm outp c =
     (case map_of collectors nm of
        None \<Rightarrow> Inl TypeError
      | Some collector \<Rightarrow> Inr (parser collector outp c))"

text \<open>
  A HostResult is a JavaScript object: a map from property keys to values. The loop of
  \<open>createHostResult\<close> assigns one property per frame and stops at the first throw.
\<close>

type_synonym hostResult = "jsstring \<rightharpoonup> json"

fun assign_frames :: "hostResult \<Rightarrow> frame list \<Rightarrow> error + hostResult" where
  "assign_frames result [] = Inr result"
| "assign_frames result (d # ds) =
     (case parseCollectorOutput (name d) (output_str d) (code d) of
        Inl e \<Rightarrow> Inl e
      | Inr v \<Rightarrow> assign_frames (result(name d \<mapsto> v)) ds)"

definition createHostResult :: "frame list \<Rightarrow> jsstring \<Rightarrow> error + hostResult" where
  "createHostResult collectorData h =
     assign_frames [js ''_host'' \<mapsto> JString h] collectorData"

section \<open>The host prober and the fleet orchestrator\<close>

record server =
  host :: jsstring

record ssh_result =
  ssh_output :: jsstring
  ssh_code :: jsnum

text \<open>
  \<open>runSSHCommand\<close> is imported from another module: it is the parameter \<open>run\<close>, which
  rejects with an error or resolves with \<open>{output, code}\<close>. \<open>getServerInfo\<close> returns what
  it printed with \<open>console.log\<close> and the value its promise resolves with; \<open>None\<close> is
  \<open>undefined\<close>, the value of the \<open>catch\<close> handler. The handler also catches what the
  \<open>then\<close> callback throws.
\<close>

definition getServerInfo ::
  "(server \<Rightarrow> jsstring \<Rightarrow> error + ssh_result) \<Rightarrow> 'v \<Rightarrow> server \<Rightarrow>
     (error \<times> server) list \<times> hostResult option" where
  "getServerInfo run vars srv =
     (case run srv generateScript of
        Inl err \<Rightarrow> ([(err, srv)], None)
      | Inr result \<Rightarrow>
          (case seperateCollectors (ssh_output result) of
             Inl err \<Rightarrow> ([(err, srv)], None)
           | Inr collectorData \<Rightarrow>
               (case createHostResult collectorData (host srv) of
                  Inl err \<Rightarrow> ([(err, srv)], None)
                | Inr hostResult \<Rightarrow> ([], Some hostResult))))"

text \<open>
  The property key \<open>serverResult._host\<close> of a host result. \<open>createHostResult\<close> always
  stores a string there; a missing property would read as \<open>undefined\<close>.
\<close>

definition host_key :: "hostResult \<Rightarrow> jsstring" where
  "host_key r = (case r (js ''_host'') of Some (JString h) \<Rightarrow> h | _ \<Rightarrow> js ''undefined'')"

text \<open>
  The \<open>forEach\<close> of \<open>serverInfo\<close> over the resolved values: reading \<open>._host\<close> of
  \<open>undefined\<close> throws a TypeError, which rejects the promise \<open>serverInfo\<close> returns.
\<close>

fun collect_results ::
  "(jsstring \<rightharpoonup> hostResult) \<Rightarrow> hostResult option list \<Rightarrow> error + (jsstring \<rightharpoonup> hostResult)" where
  "collect_results result [] = Inr result"
| "collect_results result (None # rs) = Inl TypeError"
| "collect_results result (Some serverResult # rs) =
     collect_results (result(host_key serverResult \<mapsto> serverResult)) rs"

definition serverInfo ::
  "(server \<Rightarrow> jsstring \<Rightarrow> error + ssh_result) \<Rightarrow> 'v \<Rightarrow> server list \<Rightarrow>
     error + (jsstring \<rightharpoonup> hostResult)" where
  "serverInfo run vars servers =
     collect_results Map.empty (map (\<lambda>srv. snd (getServerInfo run vars srv)) servers)"

section \<open>The command and hook dispatch engine\<close>

text \<open>
  Modelled from the spec: the dispatch engine is in plugin-api.js, which is not among the
  sources (only its unit test is). The errors are those of section 7 of the
  specification; an event records one invocation, of the hook at a position under a key
  or of the handler of a command.
\<close>

datatype 'e dispatch_error = MissingNameError | UnknownCommandError jsstring | HandlerError 'e

datatype event = HookCalled jsstring nat | HandlerCalled jsstring

text \<open>
  Modelled from the spec: the two registries of section 3. A handler works on the shared
  state and returns a result or fails; a hook method works on the state and returns
  nothing. A key with no hooks has the empty list.
\<close>

record ('st, 'r, 'e) registries =
  commands :: "jsstring \<rightharpoonup> ('st \<Rightarrow> 'e + 'r \<times> 'st)"
  hooks :: "jsstring \<Rightarrow> ('st \<Rightarrow> 'st) list"

text \<open>
  Modelled from the spec: the hooks registered under one key run in registration order
  (steps 2 and 4 of section 4.5), here from position \<open>i\<close>, each invocation recorded.
\<close>

fun run_hooks :: "jsstring \<Rightarrow> nat \<Rightarrow> ('st \<Rightarrow> 'st) list \<Rightarrow> 'st \<times> event list \<Rightarrow> 'st \<times> event list" where
  "run_hooks key i [] (st, tr) = (st, tr)"
| "run_hooks key i (m # ms) (st, tr) = run_hooks key (Suc i) ms (m st, tr @ [HookCalled key i])"

text \<open>
  Modelled from the spec: \<open>runCommand\<close> of plugin-api.js, which is not among the sources
  (only its unit test is). Section 4.5 of the specification gives its steps: fail at once
  when the name is absent or empty or when no command is registered under it; run the
  hooks of \<open>"pre." + name\<close>; run the handler; run the hooks of \<open>"post." + name\<close>; return the
  handler's result. When the handler fails the failure is propagated and the post hooks
  are skipped, the choice section 9 names. The result is the list of invocations in
  order and the outcome.
\<close>

definition runCommand ::
  "('st, 'r, 'e) registries \<Rightarrow> jsstring option \<Rightarrow> 'st \<Rightarrow>
     event list \<times> ('e dispatch_error + 'r \<times> 'st)" where
  "runCommand reg nm st =
     (case nm of
        None \<Rightarrow> ([], Inl MissingNameError)
      | Some n \<Rightarrow>
          if n = [] then ([], Inl MissingNameError)
          else
            (case commands reg n of
               None \<Rightarrow> ([], Inl (UnknownCommandError n))
             | Some handler \<Rightarrow>
                 (let (st1, tr1) = run_hooks (js ''pre.'' @ n) 0 (hooks reg (js ''pre.'' @ n)) (st, [])
                  in case handler st1 of
                       Inl e \<Rightarrow> (tr1 @ [HandlerCalled n], Inl (HandlerError e))
                     | Inr (r, st2) \<Rightarrow>
                         (let (st3, tr3) =
                                run_hooks (js ''post.'' @ n) 0 (hooks reg (js ''post.'' @ n))
                                  (st2, tr1 @ [HandlerCalled n])
                          in (tr3, Inr (r, st3))))))"

section \<open>Properties of the string built-ins\<close>

text \<open>
  \<open>js_split\<close> unfolds one occurrence of the separator at a time; it returns at least one
  piece, and a second one exactly when the separator occurs.
\<close>

lemma js_split_None: "sep \<noteq> [] \<Longrightarrow> split_first sep s = None \<Longrightarrow> js_split sep s = [s]"
  by (simp add: js_split.simps)

lemma js_split_Some: "sep \<noteq> [] \<Longrightarrow> split_first sep s = Some (a, b) \<Longrightarrow> js_split sep s = a # js_split sep b"
  by (subst js_split.simps) simp

lemma split_first_None_iff: "sep \<noteq> [] \<Longrightarrow> split_first sep s = None \<longleftrightarrow> \<not> sublist sep s"
  by (induction s) (auto simp: sublist_Cons_right)

lemma split_first_SomeD: "split_first sep s = Some (a, b) \<Longrightarrow> s = a @ sep @ b"
proof (induction s arbitrary: a)
  case Nil
  then show ?case by simp
next
  case (Cons c cs)
  show ?case
  proof (cases "prefix sep (c # cs)")
    case True
    with Cons.prems show ?thesis by (auto simp: prefix_def)
  next
    case False
    with Cons.prems obtain a' where "split_first sep cs = Some (a', b)" "a = c # a'"
      by auto
    with Cons.IH show ?thesis by simp
  qed
qed

lemma split_first_Some_sublist: "split_first sep s = Some (a, b) \<Longrightarrow> sublist sep s"
  by (auto dest: split_first_SomeD)

lemma js_split_length2_iff: "sep \<noteq> [] \<Longrightarrow> 2 \<le> length (js_split sep s) \<longleftrightarrow> sublist sep s"
proof (cases "split_first sep s")
  case None
  assume "sep \<noteq> []"
  with None show ?thesis by (simp add: js_split_None split_first_None_iff[symmetric])
next
  case (Some ab)
  assume ne: "sep \<noteq> []"
  obtain a b where ab: "ab = (a, b)" by (cases ab)
  have "js_split sep b \<noteq> []" using ne by (subst js_split.simps) (auto split: option.splits)
  with Some ab ne show ?thesis
    by (cases "js_split sep b") (auto simp: js_split_Some dest: split_first_Some_sublist)
qed

lemma js_split_nonempty: "sep \<noteq> [] \<Longrightarrow> js_split sep s \<noteq> []"
  by (subst js_split.simps) (auto split: option.splits)

lemma at_index_0_split: "sep \<noteq> [] \<Longrightarrow> \<exists>x. at_index (js_split sep s) 0 = Some x"
  using js_split_nonempty[of sep s] by (simp add: at_index_def)

lemma at_index_1_split: "sep \<noteq> [] \<Longrightarrow> at_index (js_split sep s) 1 = None \<longleftrightarrow> \<not> sublist sep s"
  using js_split_length2_iff[of sep s] by (auto simp: at_index_def)

lemma dropWhile_set_subset: "set (dropWhile P xs) \<subseteq> set xs"
  by (auto dest: set_dropWhileD)

lemma trim_set_subset: "set (trim s) \<subseteq> set s"
  using dropWhile_set_subset[of isWhiteSpace "rev (dropWhile isWhiteSpace s)"]
    dropWhile_set_subset[of isWhiteSpace s]
  unfolding trim_def by auto

lemma js_split_pieces_subset: "x \<in> set (js_split sep s) \<Longrightarrow> set x \<subseteq> set s"
proof (induction sep s arbitrary: x rule: js_split.induct)
  case (1 sep s)
  show ?case
  proof (cases "sep = []")
    case True
    with "1.prems" show ?thesis by (subst (asm) js_split.simps) auto
  next
    case False
    show ?thesis
    proof (cases "split_first sep s")
      case None
      with False "1.prems" show ?thesis by (simp add: js_split_None)
    next
      case (Some ab)
      obtain a b where ab: "ab = (a, b)" by (cases ab)
      from Some ab have s: "s = a @ sep @ b" by (auto dest: split_first_SomeD)
      from "1.prems" False Some ab have "x = a \<or> x \<in> set (js_split sep b)"
        by (simp add: js_split_Some)
      then show ?thesis
      proof
        assume "x = a" with s show ?thesis by auto
      next
        assume "x \<in> set (js_split sep b)"
        then have "set x \<subseteq> set b" using "1.IH"[OF False Some ab[symmetric]] by blast
        with s show ?thesis by auto
      qed
    qed
  qed
qed

lemma parseInt_no_digit: "\<forall>d\<in>set s. \<not> isDigit d \<Longrightarrow> parseInt s = NaN"
proof -
  assume nd: "\<forall>d\<in>set s. \<not> isDigit d"
  have tw: "takeWhile isDigit t = []" if "set t \<subseteq> set s" for t
    using that nd by (cases t) auto
  have 1: "set (dropWhile isWhiteSpace s) \<subseteq> set s" by (rule dropWhile_set_subset)
  have "set (tl xs) \<subseteq> set xs" for xs :: "nat list"
    by (cases xs) auto
  from this[of "dropWhile isWhiteSpace s"] 1
  have 2: "set (tl (dropWhile isWhiteSpace s)) \<subseteq> set s"
    by (rule subset_trans)
  show ?thesis
    unfolding parseInt_def Let_def using tw[OF 1] tw[OF 2] by simp
qed
















section \<open>The decoder \<open>seperateCollectors\<close>\<close>

lemma marks_nonempty: "prefix_mark \<noteq> []" "suffix_mark \<noteq> []" "codeSeperator \<noteq> []"
  by (simp_all add: prefix_mark_def suffix_mark_def codeSeperator_def js_def)

lemma collectorFrame_Inl: "collectorFrame c = Inl e \<Longrightarrow> e = TypeError"
  by (auto simp: collectorFrame_def split: option.splits)

lemma collectorFrame_Inr_iff:
  "(\<exists>f. collectorFrame c = Inr f) \<longleftrightarrow> sublist suffix_mark c \<and> sublist codeSeperator c"
proof -
  obtain n where n: "at_index (js_split suffix_mark c) 0 = Some n"
    using at_index_0_split[OF marks_nonempty(2)] by blast
  show ?thesis
  proof (cases "at_index (js_split suffix_mark c) 1")
    case None
    then have "\<not> sublist suffix_mark c"
      using at_index_1_split[OF marks_nonempty(2), of c] by simp
    with None show ?thesis
      by (simp add: collectorFrame_def n del: One_nat_def)
  next
    case r: (Some r)
    obtain co where co: "at_index (js_split codeSeperator r) 0 = Some co"
      using at_index_0_split[OF marks_nonempty(3)] by blast
    from r have s: "sublist suffix_mark c"
      using at_index_1_split[OF marks_nonempty(2), of c] by auto
    show ?thesis
    proof (cases "at_index (js_split codeSeperator c) 1")
      case None
      then have "\<not> sublist codeSeperator c"
        using at_index_1_split[OF marks_nonempty(3), of c] by simp
      with None show ?thesis
        by (simp add: collectorFrame_def n r co del: One_nat_def)
    next
      case (Some t)
      then have "sublist codeSeperator c"
        using at_index_1_split[OF marks_nonempty(3), of c] by auto
      with Some s show ?thesis
        by (simp add: collectorFrame_def n r co del: One_nat_def)
    qed
  qed
qed

lemma map_throwing_Inr_iff:
  "map_throwing f xs = Inr ys \<longleftrightarrow> length ys = length xs \<and> (\<forall>i<length xs. f (xs ! i) = Inr (ys ! i))"
proof (induction xs arbitrary: ys)
  case Nil
  then show ?case by auto
next
  case (Cons x xs)
  show ?case
  proof (cases ys)
    case Nil
    then show ?thesis by (auto split: sum.splits)
  next
    case (Cons y ys')
    then show ?thesis using Cons.IH[of ys']
      by (auto split: sum.splits simp: nth_Cons less_Suc_eq_0_disj all_conj_distrib split: nat.splits)
  qed
qed

lemma map_throwing_Inl:
  "map_throwing f xs = Inl e \<Longrightarrow> \<exists>x\<in>set xs. f x = Inl e"
  by (induction xs) (auto split: sum.splits)

lemma map_throwing_Inl_ex:
  "x \<in> set xs \<Longrightarrow> f x = Inl e \<Longrightarrow> \<exists>e'. map_throwing f xs = Inl e'"
  by (induction xs) (auto split: sum.splits)


lemma collectorFrame_code_NaN:
  assumes "collectorFrame c = Inr f" and "\<forall>d\<in>set (js_split codeSeperator c ! 1). \<not> isDigit d"
  shows "code f = NaN"
proof -
  from assms(1) obtain t where t: "at_index (js_split codeSeperator c) 1 = Some t"
    and f: "code f = parseInt (trim t)"
    by (auto simp: collectorFrame_def split: option.splits simp del: One_nat_def)
  from t have "t = js_split codeSeperator c ! 1"
    by (auto simp: at_index_def split: if_splits)
  with trim_set_subset[of t] assms(2) have "\<forall>d\<in>set (trim t). \<not> isDigit d" by blast
  with f show ?thesis by (simp add: parseInt_no_digit)
qed

text \<open>
  Claim C2, as amended. The claim says that a malformed chunk is marked as a parse
  failure for its probe alone and that the decode never throws. The code has no handler
  around a chunk: the decode returns a frame list exactly when every chunk after the
  first start sentinel contains the stop sentinel and the code separator. Then it has
  one frame per chunk, in order, each computed from its own chunk alone, and a chunk
  with no digit between its first code separator and the next gets the code \<open>NaN\<close>.
  When some chunk lacks the stop sentinel or the code separator, the call throws a
  TypeError and returns no frame.
\<close>

theorem seperateCollectors_frames_or_TypeError:
  "(if \<forall>c\<in>set (tl (js_split prefix_mark out)). sublist suffix_mark c \<and> sublist codeSeperator c
    then \<exists>fs. seperateCollectors out = Inr fs \<and>
           length fs = length (tl (js_split prefix_mark out)) \<and>
           (\<forall>i<length fs. collectorFrame (tl (js_split prefix_mark out) ! i) = Inr (fs ! i) \<and>
              ((\<forall>d\<in>set (js_split codeSeperator (tl (js_split prefix_mark out) ! i) ! 1). \<not> isDigit d)
                \<longrightarrow> code (fs ! i) = NaN))
    else seperateCollectors out = Inl TypeError)"
proof (cases "\<forall>c\<in>set (tl (js_split prefix_mark out)). sublist suffix_mark c \<and> sublist codeSeperator c")
  case True
  let ?cs = "tl (js_split prefix_mark out)"
  have "\<exists>fs. map_throwing collectorFrame ?cs = Inr fs"
  proof (cases "map_throwing collectorFrame ?cs")
    case (Inl e)
    then obtain x where "x \<in> set ?cs" "collectorFrame x = Inl e"
      using map_throwing_Inl[of collectorFrame ?cs e] by auto
    with True collectorFrame_Inr_iff[of x] show ?thesis by auto
  next
    case (Inr fs)
    then show ?thesis by blast
  qed
  then obtain fs where fs: "map_throwing collectorFrame ?cs = Inr fs" by blast
  then have len: "length fs = length ?cs" and each: "\<forall>i<length ?cs. collectorFrame (?cs ! i) = Inr (fs ! i)"
    by (simp_all add: map_throwing_Inr_iff)
  have "\<forall>i<length fs. collectorFrame (?cs ! i) = Inr (fs ! i) \<and>
          ((\<forall>d\<in>set (js_split codeSeperator (?cs ! i) ! 1). \<not> isDigit d) \<longrightarrow> code (fs ! i) = NaN)"
    using each len collectorFrame_code_NaN by auto
  with fs len True show ?thesis
    unfolding seperateCollectors_def by auto
next
  case False
  then obtain c where c: "c \<in> set (tl (js_split prefix_mark out))"
    and bad: "\<not> (sublist suffix_mark c \<and> sublist codeSeperator c)" by blast
  from bad collectorFrame_Inr_iff[of c] obtain e where "collectorFrame c = Inl e"
    by (cases "collectorFrame c") auto
  with c obtain e' where e': "map_throwing collectorFrame (tl (js_split prefix_mark out)) = Inl e'"
    using map_throwing_Inl_ex[of c "tl (js_split prefix_mark out)" collectorFrame e] by auto
  then obtain x where "collectorFrame x = Inl e'"
    using map_throwing_Inl[of collectorFrame "tl (js_split prefix_mark out)" e'] by auto
  then have "e' = TypeError" by (rule collectorFrame_Inl)
  with e' False show ?thesis unfolding seperateCollectors_def by simp
qed




lemmas codec_ev = js_def prefix_mark_def suffix_mark_def codeSeperator_def js_split_None js_split_Some
  collectorFrame_def at_index_def seperateCollectors_def trim_def isWhiteSpace_def parseInt_def
  isDigit_def digits_value_def

text \<open>
  Claim C2 as stated fails: the first chunk below is well formed, the second has no stop
  sentinel (in the first output) or no code separator (in the second), and the whole
  decode throws.
\<close>

theorem seperateCollectors_malformed_chunk_throws:
  "seperateCollectors (prefix_mark @ js ''swarm'' @ suffix_mark @ js ''{}'' @ codeSeperator @ js ''0''
      @ prefix_mark @ js ''images'') = Inl TypeError \<and>
   seperateCollectors (prefix_mark @ js ''swarm'' @ suffix_mark @ js ''{}'' @ codeSeperator @ js ''0''
      @ prefix_mark @ js ''images'' @ suffix_mark @ js ''[]'') = Inl TypeError"
  by (simp add: codec_ev)

text \<open>
  The amended claim at an output of two chunks, the second with no exit status.
\<close>

theorem seperateCollectors_frames_or_TypeError_witness:
  "(\<exists>fs. seperateCollectors (prefix_mark @ js ''swarm'' @ suffix_mark @ js ''{}'' @
        codeSeperator @ js ''0'' @ prefix_mark @ js ''images'' @ suffix_mark @ js ''x'' @ codeSeperator) = Inr fs \<and>
      length fs = 2) \<and>
   seperateCollectors (prefix_mark @ js ''swarm'' @ suffix_mark @ js ''{}'' @
        codeSeperator @ js ''0'' @ prefix_mark @ js ''images'' @ suffix_mark @ js ''x'' @ codeSeperator) =
     Inr [\<lparr>name = js ''swarm'', output_str = js ''{}'', code = Num 0\<rparr>,
          \<lparr>name = js ''images'', output_str = js ''x'', code = NaN\<rparr>]"
proof -
  let ?c1 = "js ''swarm'' @ suffix_mark @ js ''{}'' @ codeSeperator @ js ''0''"
  let ?c2 = "js ''images'' @ suffix_mark @ js ''x'' @ codeSeperator"
  let ?out = "prefix_mark @ js ''swarm'' @ suffix_mark @ js ''{}'' @
        codeSeperator @ js ''0'' @ prefix_mark @ js ''images'' @ suffix_mark @ js ''x'' @ codeSeperator"
  have chunks: "tl (js_split prefix_mark ?out) = [?c1, ?c2]"
    by (simp add: js_def prefix_mark_def suffix_mark_def codeSeperator_def js_split_None js_split_Some)
  have s1: "sublist suffix_mark ?c1" "sublist suffix_mark ?c2"
    by (rule sublist_appendI)+
  have s2: "sublist codeSeperator ?c1"
    using sublist_appendI[of codeSeperator "js ''swarm'' @ suffix_mark @ js ''{}''" "js ''0''"] by simp
  have s3: "sublist codeSeperator ?c2"
    using sublist_appendI[of codeSeperator "js ''images'' @ suffix_mark @ js ''x''" "[]"] by simp
  have hyp: "\<forall>c\<in>set (tl (js_split prefix_mark ?out)). sublist suffix_mark c \<and> sublist codeSeperator c"
    unfolding chunks using s1 s2 s3 by simp
  have "\<exists>fs. seperateCollectors ?out = Inr fs \<and> length fs = length (tl (js_split prefix_mark ?out))"
    using seperateCollectors_frames_or_TypeError[of ?out] unfolding if_P[OF hyp] by blast
  then have "\<exists>fs. seperateCollectors ?out = Inr fs \<and> length fs = 2"
    unfolding chunks by (simp add: numeral_2_eq_2)
  moreover have "seperateCollectors ?out =
     Inr [\<lparr>name = js ''swarm'', output_str = js ''{}'', code = Num 0\<rparr>,
          \<lparr>name = js ''images'', output_str = js ''x'', code = NaN\<rparr>]"
    by (simp add: codec_ev)
  ultimately show ?thesis by blast
qed

subsection \<open>Decoding the wire format\<close>



























text \<open>
  \<open>generateScript\<close> puts the commands of the registry into the script in key order, so the
  probes of a combined output are those of \<open>collectors\<close>, in that order.
\<close>

lemma generateScript_in_key_order:
  "generateScript = concat (map (\<lambda>(key, collector). generateVarCommand key (command collector)) collectors)"
proof -
  have "foldl (\<lambda>script (key, collector). script @ generateVarCommand key (command collector)) acc cs =
      acc @ concat (map (\<lambda>(key, collector). generateVarCommand key (command collector)) cs)"
    for acc and cs :: "(jsstring \<times> collector) list"
    by (induction cs arbitrary: acc) (auto split: prod.splits)
  then show ?thesis by (simp add: generateScript_def)
qed



section \<open>Properties of the JSON parser\<close>

text \<open>
  Text that follows a value, when it starts with a closing bracket, is left alone by the
  parser: the value parsed and the rest are the same, with the text appended.
\<close>

lemma takeWhile_append_stop: "\<not> P d \<Longrightarrow> takeWhile P (x @ d # t) = takeWhile P x"
  by (induction x) auto

lemma dropWhile_append_stop: "\<not> P d \<Longrightarrow> dropWhile P (x @ d # t) = dropWhile P x @ d # t"
  by (induction x) auto

lemma json_string_append:
  "json_string x = Some (k, r) \<Longrightarrow> json_string (x @ z) = Some (k, r @ z)"
proof (induction "length x" arbitrary: x k r rule: less_induct)
  case less
  from less.prems obtain c cs where x: "x = c # cs" by (cases x) auto
  show ?case
  proof (cases "c = 34")
    case True
    with less.prems x show ?thesis by simp
  next
    case n34: False
    show ?thesis
    proof (cases "c = 92")
      case False
      with n34 less.prems x obtain k' where "\<not> c < 32" "json_string cs = Some (k', r)" "k = c # k'"
        by (auto split: if_splits)
      with less.hyps[of cs k' r] x n34 False show ?thesis by simp
    next
      case True
      with less.prems x obtain e r0 where cs: "cs = e # r0" by (cases cs) auto
      show ?thesis
      proof (cases "e = 117")
        case u: True
        with True less.prems x cs obtain h1 h2 h3 h4 r' where r0: "r0 = h1 # h2 # h3 # h4 # r'"
          by (auto split: list.splits)
        with True less.prems x cs u obtain a b c' d k' where
          hx: "hex_value h1 = Some a" "hex_value h2 = Some b" "hex_value h3 = Some c'" "hex_value h4 = Some d"
          and rec: "json_string r' = Some (k', r)" and k: "k = (((a * 16 + b) * 16 + c') * 16 + d) # k'"
          by (auto split: option.splits)
        from less.hyps[of r' k' r] rec x cs r0 have "json_string (r' @ z) = Some (k', r @ z)" by simp
        then show ?thesis using True x cs u r0 hx k by simp
      next
        case nu: False
        with True less.prems x cs obtain y k' where
          ex: "escape_char e = Some y" and rec: "json_string r0 = Some (k', r)" and k: "k = y # k'"
          by (auto split: option.splits)
        from less.hyps[of r0 k' r] rec x cs have "json_string (r0 @ z) = Some (k', r @ z)" by simp
        then show ?thesis using True x cs nu ex k by simp
      qed
    qed
  qed
qed

lemma frac_part_append:
  "frac_part s = Some (fd, s3) \<Longrightarrow> frac_part (s @ 93 # t) = Some (fd, s3 @ 93 # t)"
  by (cases s) (auto simp: frac_part_def isDigit_def takeWhile_append_stop dropWhile_append_stop split: if_splits)

lemma exp_part_append:
  assumes a: "exp_part s = Some (e, s4)"
  shows "exp_part (s @ 93 # t) = Some (e, s4 @ 93 # t)"
proof (cases s)
  case Nil
  with a show ?thesis by (auto simp: exp_part_def)
next
  case (Cons c r)
  show ?thesis
  proof (cases "c = 101 \<or> c = 69")
    case False
    with a Cons show ?thesis by (auto simp: exp_part_def)
  next
    case True
    with a Cons have rne: "r \<noteq> []" by (auto simp: exp_part_def Let_def split: if_splits)
    then obtain d r' where r: "r = d # r'" by (cases r) auto
    with a Cons True show ?thesis
      by (auto simp: exp_part_def Let_def isDigit_def takeWhile_append_stop dropWhile_append_stop split: if_splits)
  qed
qed


lemma json_number_hd:
  "json_number x = Some (q, r) \<Longrightarrow> x \<noteq> [] \<and> (hd x = 45 \<or> isDigit (hd x))"
  by (cases x) (auto simp: json_number_def number_body_def split: if_splits list.splits)

lemma number_body_append:
  assumes a: "number_body x = Some (q, r)"
  shows "number_body (x @ 93 # t) = Some (q, r @ 93 # t)"
proof -
  from a obtain d r0 where x: "x = d # r0" and d: "isDigit d"
    by (cases x) (auto simp: number_body_def split: if_splits)
  have nd: "\<not> isDigit 93" by (simp add: isDigit_def)
  note dw = dropWhile_append_stop[of isDigit 93 r0 t, OF nd]
  note tw = takeWhile_append_stop[of isDigit 93 r0 t, OF nd]
  show ?thesis
  proof (cases "d = 48")
    case True
    with a x d obtain fd s3 e where
      f: "frac_part r0 = Some (fd, s3)" and ex: "exp_part s3 = Some (e, r)"
      and q: "q = of_nat (digits_value ([d] @ fd)) * pow10 (e - int (length fd))"
      by (auto simp: number_body_def split: option.splits)
    show ?thesis
      using True x d q by (simp add: number_body_def frac_part_append[OF f] exp_part_append[OF ex])
  next
    case False
    with a x d obtain fd s3 e where
      f: "frac_part (dropWhile isDigit r0) = Some (fd, s3)" and ex: "exp_part s3 = Some (e, r)"
      and q: "q = of_nat (digits_value ((d # takeWhile isDigit r0) @ fd)) * pow10 (e - int (length fd))"
      by (auto simp: number_body_def split: option.splits)
    show ?thesis
      using False x d q by (simp add: number_body_def dw tw frac_part_append[OF f] exp_part_append[OF ex])
  qed
qed

lemma json_number_append:
  assumes a: "json_number x = Some (q, r)"
  shows "json_number (x @ 93 # t) = Some (q, r @ 93 # t)"
proof -
  from a obtain c r0 where x: "x = c # r0" by (cases x) (auto simp: json_number_def)
  show ?thesis
  proof (cases "c = 45")
    case True
    with a x obtain q' where "number_body r0 = Some (q', r)" "q = - q'"
      by (auto simp: json_number_def)
    with True x number_body_append[of r0 q' r t] show ?thesis
      by (simp add: json_number_def)
  next
    case False
    with a x have "number_body x = Some (q, r)" by (simp add: json_number_def)
    from number_body_append[OF this, of t] False x show ?thesis
      by (simp add: json_number_def)
  qed
qed

lemma skip_ws_append_Cons: "skip_ws x = d # r \<Longrightarrow> skip_ws (x @ z) = d # r @ z"
  unfolding skip_ws_def
  by (induction x) (auto split: if_splits)

lemma skip_ws_empty_append: "skip_ws x = [] \<Longrightarrow> skip_ws (x @ 93 # t) = 93 # t"
  unfolding skip_ws_def
  by (induction x) (auto split: if_splits simp: isJSONWhiteSpace_def)

lemma parse_value_Nil [simp]: "parse_value n [] = None"
  by (cases n) auto

lemma parse_elements_Nil [simp]: "parse_elements n acc [] = None"
  by (cases n) auto

lemma parse_members_Nil [simp]: "parse_members n pacc [] = None"
  by (cases n) auto

lemma parse_append:
  "(parse_value n x = Some (v, r) \<longrightarrow> parse_value n (x @ 93 # t) = Some (v, r @ 93 # t)) \<and>
   (parse_elements n acc x = Some (v, r) \<longrightarrow> parse_elements n acc (x @ 93 # t) = Some (v, r @ 93 # t)) \<and>
   (parse_members n pacc x = Some (v, r) \<longrightarrow> parse_members n pacc (x @ 93 # t) = Some (v, r @ 93 # t))"
proof (induction n arbitrary: x v r acc pacc)
  case 0
  show ?case by simp
next
  case (Suc n)
  note IHv = Suc.IH[THEN conjunct1, rule_format]
  note IHe = Suc.IH[THEN conjunct2, THEN conjunct1, rule_format]
  note IHm = Suc.IH[THEN conjunct2, THEN conjunct2, rule_format]
  have V: "parse_value (Suc n) (x @ 93 # t) = Some (v, r @ 93 # t)"
    if a: "parse_value (Suc n) x = Some (v, r)"
  proof -
    from a obtain c r0 where x: "x = c # r0" by (cases x) auto
    consider (obj) "c = 123" | (arr) "c = 91" | (str) "c = 34"
      | (tr) "c \<notin> {123, 91, 34}" "prefix (js ''true'') x"
      | (fa) "c \<notin> {123, 91, 34}" "\<not> prefix (js ''true'') x" "prefix (js ''false'') x"
      | (nu) "c \<notin> {123, 91, 34}" "\<not> prefix (js ''true'') x" "\<not> prefix (js ''false'') x" "prefix (js ''null'') x"
      | (num) "c \<notin> {123, 91, 34}" "\<not> prefix (js ''true'') x" "\<not> prefix (js ''false'') x" "\<not> prefix (js ''null'') x"
      by blast
    then show ?thesis
    proof cases
      case obj
      with a x obtain d r' where sk: "skip_ws r0 = d # r'" by (cases "skip_ws r0") auto
      show ?thesis
      proof (cases "d = 125")
        case True
        with a x obj sk show ?thesis by (simp add: skip_ws_append_Cons[OF sk])
      next
        case False
        with a x obj sk have "parse_members n [] (d # r') = Some (v, r)" by simp
        from IHm[OF this] False x obj show ?thesis by (simp add: skip_ws_append_Cons[OF sk])
      qed
    next
      case arr
      with a x obtain d r' where sk: "skip_ws r0 = d # r'" by (cases "skip_ws r0") auto
      show ?thesis
      proof (cases "d = 93")
        case True
        with a x arr sk show ?thesis by (simp add: skip_ws_append_Cons[OF sk])
      next
        case False
        with a x arr sk have "parse_elements n [] (d # r') = Some (v, r)" by simp
        from IHe[OF this] False x arr show ?thesis by (simp add: skip_ws_append_Cons[OF sk])
      qed
    next
      case str
      with a x obtain k where "json_string r0 = Some (k, r)" "v = JString k" by auto
      with x str show ?thesis by (simp add: json_string_append)
    next
      case tr
      with a x show ?thesis by (auto simp: js_def dest: prefix_length_le)
    next
      case fa
      with a x show ?thesis by (auto simp: js_def dest: prefix_length_le)
    next
      case nu
      with a x show ?thesis by (auto simp: js_def dest: prefix_length_le)
    next
      case num
      with a x obtain q where q: "json_number x = Some (q, r)" "v = JNumber q" by auto
      from json_number_hd[OF q(1)] x have "c = 45 \<or> isDigit c" by simp
      then have "\<not> prefix (js ''true'') (x @ 93 # t)" "\<not> prefix (js ''false'') (x @ 93 # t)"
        "\<not> prefix (js ''null'') (x @ 93 # t)"
        using x by (auto simp: js_def isDigit_def)
      with num x q json_number_append[OF q(1), of t] show ?thesis by simp
    qed
  qed
  have E: "parse_elements (Suc n) acc x = Some (v, r) \<Longrightarrow>
      parse_elements (Suc n) acc (x @ 93 # t) = Some (v, r @ 93 # t)"
  proof -
    assume a: "parse_elements (Suc n) acc x = Some (v, r)"
    then obtain v1 r1 where pv: "parse_value n x = Some (v1, r1)"
      by (auto split: option.splits)
    with a obtain d r' where sk: "skip_ws r1 = d # r'" by (cases "skip_ws r1") auto
    note pv' = IHv[OF pv]
    show ?thesis
    proof (cases "d = 44")
      case True
      with a pv sk have rec: "parse_elements n (acc @ [v1]) (skip_ws r') = Some (v, r)" by simp
      then have "skip_ws r' \<noteq> []" by auto
      then obtain d2 r2 where sk2: "skip_ws r' = d2 # r2" by (cases "skip_ws r'") auto
      from IHe[OF rec] True show ?thesis
        by (simp add: pv' skip_ws_append_Cons[OF sk] sk2 skip_ws_append_Cons[OF sk2])
    next
      case False
      with a pv sk show ?thesis
        by (auto simp add: pv' skip_ws_append_Cons[OF sk] split: if_splits)
    qed
  qed
  have M: "parse_members (Suc n) pacc x = Some (v, r) \<Longrightarrow>
      parse_members (Suc n) pacc (x @ 93 # t) = Some (v, r @ 93 # t)"
  proof -
    assume a: "parse_members (Suc n) pacc x = Some (v, r)"
    then obtain r0 where x: "x = 34 # r0" by (cases x) (auto split: if_splits)
    with a obtain k r1 where js: "json_string r0 = Some (k, r1)" by (auto split: option.splits)
    with a x obtain r2 where sk1: "skip_ws r1 = 58 # r2" by (cases "skip_ws r1") (auto split: if_splits)
    with a x js obtain v1 r3 where pv: "parse_value n (skip_ws r2) = Some (v1, r3)"
      by (auto split: option.splits)
    then have "skip_ws r2 \<noteq> []" by auto
    then obtain d2 r2' where sk2: "skip_ws r2 = d2 # r2'" by (cases "skip_ws r2") auto
    from a x js sk1 pv obtain d' r4 where sk3: "skip_ws r3 = d' # r4" by (cases "skip_ws r3") auto
    have pv': "parse_value n (d2 # r2' @ 93 # t) = Some (v1, r3 @ 93 # t)"
      using IHv[OF pv] sk2 by simp
    have pre: "parse_members (Suc n) pacc (x @ 93 # t) =
       (if d' = 44 then parse_members n (obj_put pacc k v1) (skip_ws (r4 @ 93 # t))
        else if d' = 125 then Some (JObject (obj_put pacc k v1), r4 @ 93 # t) else None)"
      using x by (simp add: json_string_append[OF js] skip_ws_append_Cons[OF sk1]
          skip_ws_append_Cons[OF sk2] pv' skip_ws_append_Cons[OF sk3])
    show ?thesis
    proof (cases "d' = 44")
      case True
      with a x js sk1 pv sk3 have rec: "parse_members n (obj_put pacc k v1) (skip_ws r4) = Some (v, r)" by simp
      then have "skip_ws r4 \<noteq> []" by auto
      then obtain d5 r5 where sk5: "skip_ws r4 = d5 # r5" by (cases "skip_ws r4") auto
      from IHm[OF rec] True pre show ?thesis
        by (simp add: sk5 skip_ws_append_Cons[OF sk5])
    next
      case False
      with a x js sk1 pv sk3 pre show ?thesis
        by (auto split: if_splits)
    qed
  qed
  from V E M show ?case by blast
qed


lemma parse_value_close_bracket: "parse_value n (93 # x) = None"
  by (cases n) (auto simp: js_def json_number_def number_body_def isDigit_def)

lemma JSON_parse_wrap:
  assumes a: "JSON_parse s = Inr v"
  shows "JSON_parse (91 # s @ [93]) = Inr (JArray [v])"
proof -
  from a obtain r where pv: "parse_value (length s) (skip_ws s) = Some (v, r)" and r: "skip_ws r = []"
    by (auto simp: JSON_parse_def split: option.splits if_splits)
  from pv have "skip_ws s \<noteq> []" by auto
  then obtain d r' where sk: "skip_ws s = d # r'" by (cases "skip_ws s") auto
  from pv sk have d: "d \<noteq> 93" using parse_value_close_bracket[of "length s" r'] by auto
  have pv': "parse_value (length s) (d # r' @ [93]) = Some (v, r @ [93])"
    using parse_append[of "length s" "skip_ws s" v r "[]", THEN conjunct1] pv sk by simp
  have e: "parse_elements (Suc (length s)) [] (d # r' @ [93]) = Some (JArray [v], [])"
    using pv' skip_ws_empty_append[OF r, of "[]"] by simp
  have "skip_ws (91 # s @ [93]) = 91 # s @ [93]"
    by (simp add: skip_ws_def isJSONWhiteSpace_def)
  moreover have "parse_value (Suc (Suc (length s))) (91 # s @ [93]) = Some (JArray [v], [])"
    using e d skip_ws_append_Cons[OF sk, of "[93]"] by simp
  ultimately show ?thesis
    by (simp add: JSON_parse_def skip_ws_def)
qed

subsection \<open>The fuel of the descent is enough\<close>

text \<open>
  A successful parse leaves a shorter text, and succeeds with any fuel that is at least
  the number of code units it consumed. So \<open>JSON_parse\<close>, which gives the length of the
  text as fuel, fails only on a text that no amount of fuel would parse.
\<close>

lemma json_string_shorter: "json_string x = Some (k, r) \<Longrightarrow> length r < length x"
proof (induction "length x" arbitrary: x k r rule: less_induct)
  case less
  from less.prems obtain c cs where x: "x = c # cs" by (cases x) auto
  show ?case
  proof (cases "c = 34")
    case True
    with less.prems x show ?thesis by simp
  next
    case n34: False
    show ?thesis
    proof (cases "c = 92")
      case False
      with n34 less.prems x obtain k' where "json_string cs = Some (k', r)"
        by (auto split: if_splits)
      with less.hyps[of cs k' r] x show ?thesis by simp
    next
      case True
      with less.prems x obtain e r0 where cs: "cs = e # r0" by (cases cs) auto
      show ?thesis
      proof (cases "e = 117")
        case u: True
        with True less.prems x cs obtain h1 h2 h3 h4 r' where r0: "r0 = h1 # h2 # h3 # h4 # r'"
          by (auto split: list.splits)
        with True less.prems x cs u obtain k' where rec: "json_string r' = Some (k', r)"
          by (auto split: option.splits)
        from less.hyps[of r' k' r] rec x cs r0 show ?thesis by simp
      next
        case nu: False
        with True less.prems x cs obtain k' where rec: "json_string r0 = Some (k', r)"
          by (auto split: option.splits)
        from less.hyps[of r0 k' r] rec x cs show ?thesis by simp
      qed
    qed
  qed
qed

lemma frac_part_shorter: "frac_part s = Some (fd, t) \<Longrightarrow> length t \<le> length s"
  using length_dropWhile_le[of isDigit "tl s"]
  by (cases s) (auto simp: frac_part_def split: if_splits)

lemma exp_part_shorter: "exp_part s = Some (e, t) \<Longrightarrow> length t \<le> length s"
proof (cases s)
  case Nil
  assume "exp_part s = Some (e, t)"
  with Nil show ?thesis by (simp add: exp_part_def)
next
  case (Cons c r)
  assume a: "exp_part s = Some (e, t)"
  have "length (dropWhile isDigit r) \<le> length r" "length (dropWhile isDigit (tl r)) \<le> length r"
    using length_dropWhile_le[of isDigit r] length_dropWhile_le[of isDigit "tl r"] by auto
  with a Cons show ?thesis
    by (auto simp: exp_part_def Let_def split: if_splits)
qed

lemma number_body_shorter: "number_body s = Some (q, t) \<Longrightarrow> length t < length s"
proof -
  assume a: "number_body s = Some (q, t)"
  then obtain d r where s: "s = d # r" and d: "isDigit d"
    by (cases s) (auto simp: number_body_def split: if_splits)
  from a s d obtain fd s3 e where
    f: "frac_part (if d = 48 then r else dropWhile isDigit s) = Some (fd, s3)"
    and ex: "exp_part s3 = Some (e, t)"
    by (auto simp: number_body_def split: option.splits)
  have "length (if d = 48 then r else dropWhile isDigit s) \<le> length r"
    using s d length_dropWhile_le[of isDigit r] by auto
  with frac_part_shorter[OF f] exp_part_shorter[OF ex] s show ?thesis by simp
qed

lemma json_number_shorter: "json_number s = Some (q, t) \<Longrightarrow> length t < length s"
proof -
  assume a: "json_number s = Some (q, t)"
  then obtain c r where s: "s = c # r" by (cases s) (auto simp: json_number_def)
  show ?thesis
  proof (cases "c = 45")
    case True
    with a s obtain q' where "number_body r = Some (q', t)" by (auto simp: json_number_def)
    from number_body_shorter[OF this] s show ?thesis by simp
  next
    case False
    with a s have "number_body s = Some (q, t)" by (simp add: json_number_def)
    then show ?thesis by (rule number_body_shorter)
  qed
qed

lemma skip_ws_le: "length (skip_ws x) \<le> length x"
  unfolding skip_ws_def by (rule length_dropWhile_le)

lemma skip_ws_Cons_le: "skip_ws x = d # r \<Longrightarrow> length r < length x"
  using skip_ws_le[of x] by simp


lemma parse_fuel:
  "(parse_value n s = Some (v, r) \<longrightarrow>
      length r < length s \<and> (\<forall>m. length s - length r \<le> m \<longrightarrow> parse_value m s = Some (v, r))) \<and>
   (parse_elements n acc s = Some (v, r) \<longrightarrow>
      length r < length s \<and> (\<forall>m. length s - length r \<le> m \<longrightarrow> parse_elements m acc s = Some (v, r))) \<and>
   (parse_members n pacc s = Some (v, r) \<longrightarrow>
      length r < length s \<and> (\<forall>m. length s - length r \<le> m \<longrightarrow> parse_members m pacc s = Some (v, r)))"
proof (induction n arbitrary: s v r acc pacc)
  case 0
  show ?case by simp
next
  case (Suc n)
  have IHv: "length r < length s \<and> (\<forall>m. length s - length r \<le> m \<longrightarrow> parse_value m s = Some (v, r))"
    if "parse_value n s = Some (v, r)" for s v r
    using Suc.IH[of s v r] that by blast
  have IHe: "length r < length s \<and> (\<forall>m. length s - length r \<le> m \<longrightarrow> parse_elements m acc s = Some (v, r))"
    if "parse_elements n acc s = Some (v, r)" for s v r acc
    using Suc.IH[of s v r acc] that by blast
  have IHm: "length r < length s \<and> (\<forall>m. length s - length r \<le> m \<longrightarrow> parse_members m pacc s = Some (v, r))"
    if "parse_members n pacc s = Some (v, r)" for s v r pacc
    using Suc.IH[of s v r _ pacc] that by blast
  have V: "length r < length s \<and> (\<forall>m. length s - length r \<le> m \<longrightarrow> parse_value m s = Some (v, r))"
    if a: "parse_value (Suc n) s = Some (v, r)"
  proof -
    from a obtain c r0 where s: "s = c # r0" by (cases s) auto
    have nofuel: ?thesis
      if len: "length r < length s" and eq: "\<And>k. parse_value (Suc k) s = Some (v, r)"
    proof (intro conjI allI impI)
      fix m assume "length s - length r \<le> m"
      with len obtain k where "m = Suc k" by (cases m) auto
      with eq show "parse_value m s = Some (v, r)" by simp
    qed (rule len)
    consider (obj) "c = 123" | (arr) "c = 91" | (other) "c \<noteq> 123" "c \<noteq> 91" by blast
    then show ?thesis
    proof cases
      case obj
      with a s obtain d r' where sk: "skip_ws r0 = d # r'" by (cases "skip_ws r0") auto
      note l0 = skip_ws_Cons_le[OF sk]
      show ?thesis
      proof (cases "d = 125")
        case True
        with a s obj sk have "r = r'" "v = JObject []" by simp_all
        with True s obj sk l0 show ?thesis by (intro nofuel) simp_all
      next
        case False
        with a s obj sk have pm: "parse_members n [] (d # r') = Some (v, r)" by simp
        from IHm[OF pm] have l1: "length r < length (d # r')"
          and all: "\<And>m. length (d # r') - length r \<le> m \<Longrightarrow> parse_members m [] (d # r') = Some (v, r)"
          by auto
        show ?thesis
        proof (intro conjI allI impI)
          show "length r < length s" using l1 l0 s by simp
          fix m assume m: "length s - length r \<le> m"
          with l1 l0 s obtain k where k: "m = Suc k" by (cases m) auto
          with m l1 l0 s have "length (d # r') - length r \<le> k" by simp
          from all[OF this] k False s obj sk show "parse_value m s = Some (v, r)" by simp
        qed
      qed
    next
      case arr
      with a s obtain d r' where sk: "skip_ws r0 = d # r'" by (cases "skip_ws r0") auto
      note l0 = skip_ws_Cons_le[OF sk]
      show ?thesis
      proof (cases "d = 93")
        case True
        with a s arr sk have "r = r'" "v = JArray []" by simp_all
        with True s arr sk l0 show ?thesis by (intro nofuel) simp_all
      next
        case False
        with a s arr sk have pm: "parse_elements n [] (d # r') = Some (v, r)" by simp
        from IHe[OF pm] have l1: "length r < length (d # r')"
          and all: "\<And>m. length (d # r') - length r \<le> m \<Longrightarrow> parse_elements m [] (d # r') = Some (v, r)"
          by auto
        show ?thesis
        proof (intro conjI allI impI)
          show "length r < length s" using l1 l0 s by simp
          fix m assume m: "length s - length r \<le> m"
          with l1 l0 s obtain k where k: "m = Suc k" by (cases m) auto
          with m l1 l0 s have "length (d # r') - length r \<le> k" by simp
          from all[OF this] k False s arr sk show "parse_value m s = Some (v, r)" by simp
        qed
      qed
    next
      case other
      have eq: "parse_value (Suc k) s = parse_value (Suc n) s" for k
        using other s by simp
      have "length r < length s"
        using a other s json_string_shorter[of r0 _ r] json_number_shorter[of s _ r]
        by (auto split: if_splits dest: prefix_length_le)
      then show ?thesis using eq a by (intro nofuel) simp_all
    qed
  qed
  have E: "length r < length s \<and> (\<forall>m. length s - length r \<le> m \<longrightarrow> parse_elements m acc s = Some (v, r))"
    if a: "parse_elements (Suc n) acc s = Some (v, r)"
  proof -
    from a obtain v1 r1 where pv: "parse_value n s = Some (v1, r1)"
      by (auto split: option.splits)
    with a obtain d r' where sk: "skip_ws r1 = d # r'" by (cases "skip_ws r1") auto
    from IHv[OF pv] have l1: "length r1 < length s"
      and allv: "\<And>m. length s - length r1 \<le> m \<Longrightarrow> parse_value m s = Some (v1, r1)" by auto
    note l2 = skip_ws_Cons_le[OF sk]
    show ?thesis
    proof (cases "d = 44")
      case True
      with a pv sk have rec: "parse_elements n (acc @ [v1]) (skip_ws r') = Some (v, r)" by simp
      from IHe[OF rec] have l3: "length r < length (skip_ws r')"
        and alle: "\<And>m. length (skip_ws r') - length r \<le> m \<Longrightarrow>
            parse_elements m (acc @ [v1]) (skip_ws r') = Some (v, r)" by auto
      note l4 = skip_ws_le[of r']
      show ?thesis
      proof (intro conjI allI impI)
        show "length r < length s" using l1 l2 l3 l4 by simp
        fix m assume m: "length s - length r \<le> m"
        with l1 l2 l3 l4 obtain k where k: "m = Suc k" by (cases m) auto
        with m l1 l2 l3 l4 have "length s - length r1 \<le> k" "length (skip_ws r') - length r \<le> k"
          by simp_all
        from allv[OF this(1)] alle[OF this(2)] k True sk
        show "parse_elements m acc s = Some (v, r)" by simp
      qed
    next
      case False
      with a pv sk have d: "d = 93" and r: "r = r'" and v: "v = JArray (acc @ [v1])"
        by (auto split: if_splits)
      show ?thesis
      proof (intro conjI allI impI)
        show "length r < length s" using l1 l2 r by simp
        fix m assume m: "length s - length r \<le> m"
        with l1 l2 r obtain k where k: "m = Suc k" by (cases m) auto
        with m l1 l2 r have "length s - length r1 \<le> k" by simp
        from allv[OF this] k d r v sk show "parse_elements m acc s = Some (v, r)" by simp
      qed
    qed
  qed
  have M: "length r < length s \<and> (\<forall>m. length s - length r \<le> m \<longrightarrow> parse_members m pacc s = Some (v, r))"
    if a: "parse_members (Suc n) pacc s = Some (v, r)"
  proof -
    from a obtain r0 where s: "s = 34 # r0" by (cases s) (auto split: if_splits)
    with a obtain k r1 where js: "json_string r0 = Some (k, r1)" by (auto split: option.splits)
    with a s obtain r2 where sk1: "skip_ws r1 = 58 # r2" by (cases "skip_ws r1") (auto split: if_splits)
    with a s js obtain v1 r3 where pv: "parse_value n (skip_ws r2) = Some (v1, r3)"
      by (auto split: option.splits)
    from a s js sk1 pv obtain d' r4 where sk3: "skip_ws r3 = d' # r4" by (cases "skip_ws r3") auto
    note l1 = json_string_shorter[OF js]
    note l2 = skip_ws_Cons_le[OF sk1]
    note l3 = skip_ws_le[of r2]
    from IHv[OF pv] have l4: "length r3 < length (skip_ws r2)"
      and allv: "\<And>m. length (skip_ws r2) - length r3 \<le> m \<Longrightarrow> parse_value m (skip_ws r2) = Some (v1, r3)"
      by auto
    note l5 = skip_ws_Cons_le[OF sk3]
    show ?thesis
    proof (cases "d' = 44")
      case True
      with a s js sk1 pv sk3 have rec: "parse_members n (obj_put pacc k v1) (skip_ws r4) = Some (v, r)"
        by simp
      from IHm[OF rec] have l6: "length r < length (skip_ws r4)"
        and allm: "\<And>m. length (skip_ws r4) - length r \<le> m \<Longrightarrow>
            parse_members m (obj_put pacc k v1) (skip_ws r4) = Some (v, r)" by auto
      note l7 = skip_ws_le[of r4]
      show ?thesis
      proof (intro conjI allI impI)
        show "length r < length s" using s l1 l2 l3 l4 l5 l6 l7 by simp
        fix m assume m: "length s - length r \<le> m"
        with s l1 l2 l3 l4 l5 l6 l7 obtain j where j: "m = Suc j" by (cases m) auto
        with m s l1 l2 l3 l4 l5 l6 l7
        have "length (skip_ws r2) - length r3 \<le> j" "length (skip_ws r4) - length r \<le> j"
          by simp_all
        from allv[OF this(1)] allm[OF this(2)] j True s js sk1 sk3
        show "parse_members m pacc s = Some (v, r)" by simp
      qed
    next
      case False
      with a s js sk1 pv sk3 have d: "d' = 125" and r: "r = r4" and v: "v = JObject (obj_put pacc k v1)"
        by (auto split: if_splits)
      show ?thesis
      proof (intro conjI allI impI)
        show "length r < length s" using s l1 l2 l3 l4 l5 r by simp
        fix m assume m: "length s - length r \<le> m"
        with s l1 l2 l3 l4 l5 r obtain j where j: "m = Suc j" by (cases m) auto
        with m s l1 l2 l3 l4 l5 r have "length (skip_ws r2) - length r3 \<le> j" by simp
        from allv[OF this] j d r v s js sk1 sk3
        show "parse_members m pacc s = Some (v, r)" by simp
      qed
    qed
  qed
  from V E M show ?case by blast
qed

lemma parse_value_fuel_enough:
  assumes "parse_value n (skip_ws text) = Some (v, r)"
  shows "parse_value (length text) (skip_ws text) = Some (v, r)"
proof -
  from parse_fuel[of n "skip_ws text" v r, THEN conjunct1] assms
  have "\<forall>m. length (skip_ws text) - length r \<le> m \<longrightarrow> parse_value m (skip_ws text) = Some (v, r)"
    by blast
  moreover have "length (skip_ws text) - length r \<le> length text"
    using skip_ws_le[of "text"] by simp
  ultimately show ?thesis by blast
qed

lemma JSON_parse_complete:
  "(\<exists>v. JSON_parse text = Inr v) \<longleftrightarrow> (\<exists>n v r. parse_value n (skip_ws text) = Some (v, r) \<and> skip_ws r = [])"
proof
  assume "\<exists>v. JSON_parse text = Inr v"
  then obtain v r where "parse_value (length text) (skip_ws text) = Some (v, r)" "skip_ws r = []"
    by (auto simp: JSON_parse_def split: option.splits if_splits)
  then show "\<exists>n v r. parse_value n (skip_ws text) = Some (v, r) \<and> skip_ws r = []"
    by blast
next
  assume "\<exists>n v r. parse_value n (skip_ws text) = Some (v, r) \<and> skip_ws r = []"
  then obtain n v r where "parse_value n (skip_ws text) = Some (v, r)" "skip_ws r = []" by blast
  with parse_value_fuel_enough[of n "text" v r] show "\<exists>v. JSON_parse text = Inr v"
    by (simp add: JSON_parse_def)
qed

section \<open>The probe parsers\<close>

lemma js_split_newline_free: "10 \<notin> set s \<Longrightarrow> js_split [10::nat] s = [s]"
proof -
  assume a: "10 \<notin> set s"
  have "split_first [10::nat] t = None" if "10 \<notin> set t" for t
    using that by (induction t) auto
  with a show ?thesis by (simp add: js_split_None)
qed

lemmas json_ev = JSON_parse_def skip_ws_def isJSONWhiteSpace_def js_def json_number_def number_body_def
  frac_part_def exp_part_def isDigit_def digits_value_def pow10_def hex_value_def escape_char_def
  obj_put_def isArray_def

text \<open>
  Claim C7, as amended. On the two lines of the example the JSON-lines parser returns the
  two objects; on a nonzero exit code it returns \<open>null\<close>; on exit code 0 it returns
  \<open>null\<close> when the lines, joined with commas and put in brackets, are not valid JSON; and
  on exit code 0 and one JSON value whose text holds no line feed it returns the
  one-element array of that value. (A line feed anywhere in the output is turned into a
  comma before parsing.)
\<close>

theorem parseJSONArray_cases:
  "parseJSONArray (js ''{\"a\":1}'' @ [10] @ js ''{\"b\":2}'') (Num 0) =
     JArray [JObject [(js ''a'', JNumber 1)], JObject [(js ''b'', JNumber 2)]] \<and>
   (c \<noteq> Num 0 \<longrightarrow> parseJSONArray stdout c = JNull) \<and>
   (JSON_parse (js ''['' @ js_join (js '','') (js_split [10] stdout) @ js '']'') = Inl e \<longrightarrow>
      parseJSONArray stdout (Num 0) = JNull) \<and>
   (JSON_parse stdout = Inr v \<and> 10 \<notin> set stdout \<longrightarrow> parseJSONArray stdout (Num 0) = JArray [v])"
proof -
  have 1: "parseJSONArray (js ''{\"a\":1}'' @ [10] @ js ''{\"b\":2}'') (Num 0) =
     JArray [JObject [(js ''a'', JNumber 1)], JObject [(js ''b'', JNumber 2)]]"
    by (simp add: parseJSONArray_def json_ev js_split_None js_split_Some)
  have 2: "c \<noteq> Num 0 \<longrightarrow> parseJSONArray stdout c = JNull"
    by (simp add: parseJSONArray_def)
  have 3: "JSON_parse (js ''['' @ js_join (js '','') (js_split [10] stdout) @ js '']'') = Inl e \<longrightarrow>
      parseJSONArray stdout (Num 0) = JNull"
    by (simp add: parseJSONArray_def)
  have 4: "parseJSONArray stdout (Num 0) = JArray [v]" if "JSON_parse stdout = Inr v" "10 \<notin> set stdout"
    using JSON_parse_wrap[OF that(1)] js_split_newline_free[OF that(2)]
    by (simp add: parseJSONArray_def js_def isArray_def)
  from 1 2 3 4 show ?thesis by blast
qed

text \<open>
  Claim C7 as stated fails on a single object followed by a line feed: the text is one
  JSON value, not an array, and the parser returns \<open>null\<close>.
\<close>

theorem parseJSONArray_trailing_newline_null:
  "JSON_parse (js ''{\"a\":1}'' @ [10]) = Inr (JObject [(js ''a'', JNumber 1)]) \<and>
   \<not> isArray (JObject [(js ''a'', JNumber 1)]) \<and>
   parseJSONArray (js ''{\"a\":1}'' @ [10]) (Num 0) = JNull"
  by (simp add: parseJSONArray_def json_ev js_split_None js_split_Some)

text \<open>The amended claim C7 at exit code 1, at a truncated object and at the text \<open>7\<close>.\<close>

theorem parseJSONArray_cases_witness:
  "Num 1 \<noteq> Num 0 \<and> parseJSONArray (js ''[]'') (Num 1) = JNull \<and>
   JSON_parse (js ''['' @ js_join (js '','') (js_split [10] (js ''{\"a\":''))  @ js '']'') = Inl SyntaxError \<and>
   parseJSONArray (js ''{\"a\":'') (Num 0) = JNull \<and>
   JSON_parse (js ''7'') = Inr (JNumber 7) \<and> 10 \<notin> set (js ''7'') \<and>
   parseJSONArray (js ''7'') (Num 0) = JArray [JNumber 7]"
proof -
  have a: "JSON_parse (js ''['' @ js_join (js '','') (js_split [10] (js ''{\"a\":''))  @ js '']'') = Inl SyntaxError"
    by (simp add: json_ev js_split_None js_split_Some)
  have b: "JSON_parse (js ''7'') = Inr (JNumber 7)" "10 \<notin> set (js ''7'')"
    by (simp_all add: json_ev)
  from parseJSONArray_cases[of "Num 1" "js ''[]''" SyntaxError "JNumber 7"]
  have 1: "parseJSONArray (js ''[]'') (Num 1) = JNull" by simp
  from parseJSONArray_cases[of "Num 1" "js ''{\"a\":''" SyntaxError "JNumber 7"] a
  have 2: "parseJSONArray (js ''{\"a\":'') (Num 0) = JNull" by blast
  from parseJSONArray_cases[of "Num 1" "js ''7''" SyntaxError "JNumber 7"] b
  have 3: "parseJSONArray (js ''7'') (Num 0) = JArray [JNumber 7]" by blast
  from a b 1 2 3 show ?thesis by simp
qed

text \<open>
  Claim C10: on exit code 0 and the empty output the JSON-lines parser returns the empty
  array, not \<open>null\<close>.
\<close>

theorem parseJSONArray_empty_output: "parseJSONArray [] (Num 0) = JArray []"
  by (simp add: parseJSONArray_def json_ev js_split_None js_split_Some)

text \<open>
  Claim C8: the parser of the \<open>swarm\<close> collector returns, on exit code 0, the value that
  \<open>JSON.parse\<close> gives for the output, \<open>null\<close> when \<open>JSON.parse\<close> throws, and \<open>null\<close> on
  every other exit code.
\<close>

theorem swarm_parser_cases:
  "map_option parser (map_of collectors (js ''swarm'')) = Some swarm_parser \<and>
   (JSON_parse stdout = Inr v \<longrightarrow> swarm_parser stdout (Num 0) = v) \<and>
   (JSON_parse stdout = Inl e \<longrightarrow> swarm_parser stdout (Num 0) = JNull) \<and>
   (c \<noteq> Num 0 \<longrightarrow> swarm_parser stdout c = JNull)"
  by (simp add: swarm_parser_def collectors_def js_def)

text \<open>Claim C8 at the object of the specification, at a text that is no JSON, at exit code 127.\<close>

theorem swarm_parser_cases_witness:
  "JSON_parse (js ''{\"x\":true}'') = Inr (JObject [(js ''x'', JBool True)]) \<and>
   swarm_parser (js ''{\"x\":true}'') (Num 0) = JObject [(js ''x'', JBool True)] \<and>
   JSON_parse (js ''no such command'') = Inl SyntaxError \<and>
   swarm_parser (js ''no such command'') (Num 0) = JNull \<and>
   Num 127 \<noteq> Num 0 \<and> swarm_parser (js ''{\"x\":true}'') (Num 127) = JNull"
proof -
  have a: "JSON_parse (js ''{\"x\":true}'') = Inr (JObject [(js ''x'', JBool True)])"
    by (simp add: json_ev)
  have b: "JSON_parse (js ''no such command'') = Inl SyntaxError"
    by (simp add: json_ev)
  from swarm_parser_cases[of "js ''{\"x\":true}''" "JObject [(js ''x'', JBool True)]" SyntaxError "Num 127"] a
  have 1: "swarm_parser (js ''{\"x\":true}'') (Num 0) = JObject [(js ''x'', JBool True)]"
    and 3: "swarm_parser (js ''{\"x\":true}'') (Num 127) = JNull" by simp_all
  from swarm_parser_cases[of "js ''no such command''" JNull SyntaxError "Num 127"] b
  have 2: "swarm_parser (js ''no such command'') (Num 0) = JNull" by simp
  from a b 1 2 3 show ?thesis by simp
qed
section \<open>The host result of \<open>createHostResult\<close>\<close>

lemma registered_names:
  "fst ` set collectors = {js ''swarm'', js ''swarmNodes'', js ''swarmToken'', js ''swarmServices'', js ''images''}"
  by (simp add: collectors_def)

lemma host_not_registered: "js ''_host'' \<notin> fst ` set collectors"
  by (simp add: collectors_def js_def)

lemma parseCollectorOutput_registered:
  "nm \<in> fst ` set collectors \<Longrightarrow>
     \<exists>c. map_of collectors nm = Some c \<and> parseCollectorOutput nm outp cd = Inr (parser c outp cd)"
proof -
  assume "nm \<in> fst ` set collectors"
  then obtain c where "map_of collectors nm = Some c"
    by (cases "map_of collectors nm") (auto simp: map_of_eq_None_iff)
  then show ?thesis by (simp add: parseCollectorOutput_def)
qed

lemma parseCollectorOutput_unregistered:
  "nm \<notin> fst ` set collectors \<Longrightarrow> parseCollectorOutput nm outp cd = Inl TypeError"
  by (simp add: parseCollectorOutput_def map_of_eq_None_iff[THEN iffD2])

lemma assign_frames_unregistered:
  "\<exists>f\<in>set fs. name f \<notin> fst ` set collectors \<Longrightarrow> assign_frames r fs = Inl TypeError"
proof (induction fs arbitrary: r)
  case Nil
  then show ?case by simp
next
  case (Cons d ds)
  show ?case
  proof (cases "name d \<in> fst ` set collectors")
    case True
    with Cons.prems have "\<exists>f\<in>set ds. name f \<notin> fst ` set collectors" by auto
    from Cons.IH[OF this] parseCollectorOutput_registered[OF True, of "output_str d" "code d"]
    show ?thesis by auto
  next
    case False
    then show ?thesis by (simp add: parseCollectorOutput_unregistered)
  qed
qed

lemma assign_frames_registered:
  assumes "\<forall>f\<in>set fs. name f \<in> fst ` set collectors"
  shows "assign_frames r fs =
     Inr (\<lambda>k. if k \<in> name ` set fs
               then map_option (\<lambda>c. parser c (output_str (last (filter (\<lambda>g. name g = k) fs)))
                                       (code (last (filter (\<lambda>g. name g = k) fs))))
                      (map_of collectors k)
               else r k)"
  using assms
proof (induction fs arbitrary: r)
  case Nil
  then show ?case by simp
next
  case (Cons d ds)
  from Cons.prems have reg: "name d \<in> fst ` set collectors"
    and rest: "\<forall>f\<in>set ds. name f \<in> fst ` set collectors" by auto
  from parseCollectorOutput_registered[OF reg, of "output_str d" "code d"]
  obtain c where c: "map_of collectors (name d) = Some c"
    and p: "parseCollectorOutput (name d) (output_str d) (code d) = Inr (parser c (output_str d) (code d))"
    by blast
  have "assign_frames r (d # ds) = assign_frames (r(name d \<mapsto> parser c (output_str d) (code d))) ds"
    using p by simp
  also have "\<dots> = Inr (\<lambda>k. if k \<in> name ` set ds
               then map_option (\<lambda>c. parser c (output_str (last (filter (\<lambda>g. name g = k) ds)))
                                       (code (last (filter (\<lambda>g. name g = k) ds))))
                      (map_of collectors k)
               else (r(name d \<mapsto> parser c (output_str d) (code d))) k)"
    by (rule Cons.IH[OF rest])
  also have "\<dots> = Inr (\<lambda>k. if k \<in> name ` set (d # ds)
               then map_option (\<lambda>c. parser c (output_str (last (filter (\<lambda>g. name g = k) (d # ds))))
                                       (code (last (filter (\<lambda>g. name g = k) (d # ds)))))
                      (map_of collectors k)
               else r k)"
  proof -
    have "filter (\<lambda>g. name g = k) ds \<noteq> []" if "k \<in> name ` set ds" for k
      using that by (auto simp: filter_empty_conv)
    moreover have "filter (\<lambda>g. name g = k) ds = []" if "k \<notin> name ` set ds" for k
      using that by (auto simp: filter_empty_conv)
    ultimately show ?thesis
      using c by (auto intro!: ext)
  qed
  finally show ?case .
qed

text \<open>
  Claim C3, as amended. The claim promises one entry per registered probe, \<open>null\<close> for a
  probe whose frame is missing or malformed. The code makes one entry per frame it is
  given: when every frame names a registered probe, the result has the \<open>_host\<close> key set
  to the host and exactly one more key per distinct frame name, whose value is what the
  probe's parser returns on the last frame of that name (\<open>null\<close> when the parser fails);
  a registered probe with no frame has no key. When some frame names no registered probe,
  \<open>createHostResult\<close> throws a TypeError.
\<close>

theorem createHostResult_entries:
  "(if \<forall>f\<in>set frames. name f \<in> fst ` set collectors
    then \<exists>r. createHostResult frames h = Inr r \<and>
           r (js ''_host'') = Some (JString h) \<and>
           dom r = insert (js ''_host'') (name ` set frames) \<and>
           (\<forall>f\<in>set frames. \<exists>c. map_of collectors (name f) = Some c \<and>
              r (name f) =
                Some (parser c (output_str (last (filter (\<lambda>g. name g = name f) frames)))
                               (code (last (filter (\<lambda>g. name g = name f) frames)))))
    else createHostResult frames h = Inl TypeError)"
proof (cases "\<forall>f\<in>set frames. name f \<in> fst ` set collectors")
  case True
  let ?r = "\<lambda>k. if k \<in> name ` set frames
               then map_option (\<lambda>c. parser c (output_str (last (filter (\<lambda>g. name g = k) frames)))
                                       (code (last (filter (\<lambda>g. name g = k) frames))))
                      (map_of collectors k)
               else [js ''_host'' \<mapsto> JString h] k"
  have r: "createHostResult frames h = Inr ?r"
    unfolding createHostResult_def by (rule assign_frames_registered[OF True])
  have nh: "js ''_host'' \<notin> name ` set frames"
    using True host_not_registered by auto
  have looked: "\<exists>c. map_of collectors k = Some c" if "k \<in> name ` set frames" for k
    using that True by (cases "map_of collectors k") (auto simp: map_of_eq_None_iff)
  have 1: "?r (js ''_host'') = Some (JString h)" using nh by simp
  have 2: "dom ?r = insert (js ''_host'') (name ` set frames)"
    using looked by (auto simp: dom_def split: if_splits)
  have 3: "\<forall>f\<in>set frames. \<exists>c. map_of collectors (name f) = Some c \<and>
              ?r (name f) =
                Some (parser c (output_str (last (filter (\<lambda>g. name g = name f) frames)))
                               (code (last (filter (\<lambda>g. name g = name f) frames))))"
  proof
    fix f assume "f \<in> set frames"
    then have nf: "name f \<in> name ` set frames" by simp
    from looked[OF this] obtain c where c: "map_of collectors (name f) = Some c" by blast
    show "\<exists>c. map_of collectors (name f) = Some c \<and>
              ?r (name f) =
                Some (parser c (output_str (last (filter (\<lambda>g. name g = name f) frames)))
                               (code (last (filter (\<lambda>g. name g = name f) frames))))"
      using c nf by simp
  qed
  have "\<exists>r. createHostResult frames h = Inr r \<and>
           r (js ''_host'') = Some (JString h) \<and>
           dom r = insert (js ''_host'') (name ` set frames) \<and>
           (\<forall>f\<in>set frames. \<exists>c. map_of collectors (name f) = Some c \<and>
              r (name f) =
                Some (parser c (output_str (last (filter (\<lambda>g. name g = name f) frames)))
                               (code (last (filter (\<lambda>g. name g = name f) frames)))))"
    by (rule exI[of _ ?r]) (intro conjI r 1 2 3)
  then show ?thesis unfolding if_P[OF True] .
next
  case False
  then have "\<exists>f\<in>set frames. name f \<notin> fst ` set collectors" by blast
  from assign_frames_unregistered[OF this] False show ?thesis
    by (simp add: createHostResult_def)
qed

text \<open>
  Claim C3 as stated fails: with no frame the result holds the host key alone, so the
  \<open>swarm\<close> key is absent and not \<open>null\<close>; and a frame of an unregistered name makes the
  call throw.
\<close>

theorem createHostResult_missing_probe:
  "createHostResult [] (js ''h1'') = Inr [js ''_host'' \<mapsto> JString (js ''h1'')] \<and>
   [js ''_host'' \<mapsto> JString (js ''h1'')] (js ''swarm'') = None \<and>
   createHostResult [\<lparr>name = js ''uptime'', output_str = js ''up 3 days'', code = Num 0\<rparr>] (js ''h1'')
     = Inl TypeError"
  by (simp add: createHostResult_def parseCollectorOutput_def collectors_def js_def)

text \<open>
  The amended claim C3 at two frames: a \<open>swarm\<close> frame whose output is no JSON and an
  \<open>images\<close> frame with empty output.
\<close>

theorem createHostResult_entries_witness:
  "\<exists>r. createHostResult
          [\<lparr>name = js ''swarm'', output_str = js ''not json'', code = Num 0\<rparr>,
           \<lparr>name = js ''images'', output_str = [], code = Num 0\<rparr>] (js ''h1'') = Inr r \<and>
        r (js ''_host'') = Some (JString (js ''h1'')) \<and>
        dom r = {js ''_host'', js ''swarm'', js ''images''} \<and>
        r (js ''swarm'') = Some JNull \<and>
        r (js ''images'') = Some (JArray [])"
proof -
  let ?fr = "[\<lparr>name = js ''swarm'', output_str = js ''not json'', code = Num 0\<rparr>,
           \<lparr>name = js ''images'', output_str = [], code = Num 0\<rparr>]"
  have reg: "\<forall>f\<in>set ?fr. name f \<in> fst ` set collectors"
    by (simp add: collectors_def)
  from createHostResult_entries[of ?fr "js ''h1''"]
  obtain r where r: "createHostResult ?fr (js ''h1'') = Inr r"
    and h: "r (js ''_host'') = Some (JString (js ''h1''))"
    and d: "dom r = insert (js ''_host'') (name ` set ?fr)"
    and v: "\<forall>f\<in>set ?fr. \<exists>c. map_of collectors (name f) = Some c \<and>
              r (name f) =
                Some (parser c (output_str (last (filter (\<lambda>g. name g = name f) ?fr)))
                               (code (last (filter (\<lambda>g. name g = name f) ?fr))))"
    unfolding if_P[OF reg] by blast
  have ne: "js ''images'' \<noteq> js ''swarm''" by (simp add: js_def)
  from v have "r (js ''swarm'') = Some (swarm_parser (js ''not json'') (Num 0))"
    using ne by (simp add: collectors_def)
  moreover have "swarm_parser (js ''not json'') (Num 0) = JNull"
    by (simp add: swarm_parser_def json_ev)
  moreover from v have "r (js ''images'') = Some (parseJSONArray [] (Num 0))"
    using ne by (simp add: collectors_def js_def)
  moreover have "parseJSONArray [] (Num 0) = JArray []"
    by (simp add: parseJSONArray_def json_ev js_split_None js_split_Some)
  moreover from d have "dom r = {js ''_host'', js ''swarm'', js ''images''}" by simp
  ultimately show ?thesis using r h by simp
qed


section \<open>The fleet orchestrator \<open>serverInfo\<close>\<close>

lemma seperateCollectors_empty: "seperateCollectors [] = Inr []"
  by (simp add: seperateCollectors_def js_split_None marks_nonempty)

lemma collect_results_undefined:
  "None \<in> set rs \<Longrightarrow> collect_results result rs = Inl TypeError"
proof (induction rs arbitrary: result)
  case Nil
  then show ?case by simp
next
  case (Cons x rs)
  then show ?case by (cases x) auto
qed

text \<open>When every transport call resolves, \<open>serverInfo\<close> resolves with the host-keyed map.\<close>

lemma serverInfo_resolves_when_all_resolve:
  "serverInfo (\<lambda>srv script. Inr \<lparr>ssh_output = [], ssh_code = Num 0\<rparr>) ()
      [\<lparr>host = js ''h1''\<rparr>, \<lparr>host = js ''h2''\<rparr>]
     = Inr [js ''h1'' \<mapsto> [js ''_host'' \<mapsto> JString (js ''h1'')],
            js ''h2'' \<mapsto> [js ''_host'' \<mapsto> JString (js ''h2'')]]"
  by (simp add: serverInfo_def getServerInfo_def seperateCollectors_empty createHostResult_def
      host_key_def)

text \<open>
  Whenever one host of the list has its transport call rejected, \<open>serverInfo\<close> rejects,
  whatever the other hosts return.
\<close>

lemma serverInfo_rejects_on_any_rejection:
  assumes "srv \<in> set servers" and "run srv generateScript = Inl err"
  shows "serverInfo run vars servers = Inl TypeError"
proof -
  from assms(2) have "snd (getServerInfo run vars srv) = None"
    by (simp add: getServerInfo_def)
  with assms(1) have "None \<in> set (map (\<lambda>srv. snd (getServerInfo run vars srv)) servers)"
    by force
  then show ?thesis unfolding serverInfo_def by (rule collect_results_undefined)
qed

text \<open>
  Claim C1 at two hosts, where the transport call of \<open>h1\<close> rejects and that of \<open>h2\<close>
  resolves: \<open>getServerInfo\<close> logs the error of \<open>h1\<close> and resolves with \<open>undefined\<close>, it
  resolves with the host result of \<open>h2\<close>, and \<open>serverInfo\<close> then rejects with the
  TypeError of reading \<open>_host\<close> of \<open>undefined\<close>, where the claim has it resolve with the
  result of \<open>h2\<close>.
\<close>

theorem serverInfo_rejects_after_failed_host:
  "getServerInfo
      (\<lambda>srv script. if host srv = js ''h1'' then Inl (TransportError (js ''timed out''))
                     else Inr \<lparr>ssh_output = [], ssh_code = Num 0\<rparr>)
      () \<lparr>host = js ''h1''\<rparr>
     = ([(TransportError (js ''timed out''), \<lparr>host = js ''h1''\<rparr>)], None) \<and>
   getServerInfo
      (\<lambda>srv script. if host srv = js ''h1'' then Inl (TransportError (js ''timed out''))
                     else Inr \<lparr>ssh_output = [], ssh_code = Num 0\<rparr>)
      () \<lparr>host = js ''h2''\<rparr>
     = ([], Some [js ''_host'' \<mapsto> JString (js ''h2'')]) \<and>
   serverInfo
      (\<lambda>srv script. if host srv = js ''h1'' then Inl (TransportError (js ''timed out''))
                     else Inr \<lparr>ssh_output = [], ssh_code = Num 0\<rparr>)
      () [\<lparr>host = js ''h1''\<rparr>, \<lparr>host = js ''h2''\<rparr>]
     = Inl TypeError"
  by (simp add: serverInfo_def getServerInfo_def seperateCollectors_empty createHostResult_def js_def)


section \<open>The dispatch engine \<open>runCommand\<close>\<close>

lemma run_hooks_trace:
  "run_hooks key i ms (st, tr) =
     (foldl (\<lambda>s m. m s) st ms, tr @ map (HookCalled key) [i..<i + length ms])"
proof (induction ms arbitrary: i st tr)
  case Nil
  then show ?case by simp
next
  case (Cons m ms)
  have "[i..<i + length (m # ms)] = i # [Suc i..<Suc i + length ms]"
    by (subst upt_rec) simp
  with Cons.IH[of "Suc i" "m st" "tr @ [HookCalled key i]"] show ?case by simp
qed

text \<open>
  Claim C5: for a command registered under a name, with a handler that returns, the
  invocations of \<open>runCommand\<close> are the pre hooks in registration order, then the handler,
  once, then the post hooks in registration order; the call resolves with the handler's
  result, and each step works on the state the step before it left.
\<close>

theorem runCommand_order:
  assumes "commands reg n = Some handler" and "n \<noteq> []"
    and "handler (foldl (\<lambda>s m. m s) st (hooks reg (js ''pre.'' @ n))) = Inr (r, st2)"
  shows "runCommand reg (Some n) st =
     (map (HookCalled (js ''pre.'' @ n)) [0..<length (hooks reg (js ''pre.'' @ n))] @
        [HandlerCalled n] @
        map (HookCalled (js ''post.'' @ n)) [0..<length (hooks reg (js ''post.'' @ n))],
      Inr (r, foldl (\<lambda>s m. m s) st2 (hooks reg (js ''post.'' @ n))))"
  using assms by (simp add: runCommand_def run_hooks_trace)

text \<open>
  The test of plugin-api.unit.js: one pre hook, one post hook and a handler, each setting
  its flag.
\<close>

theorem runCommand_order_witness:
  "runCommand
     \<lparr>commands = [js ''test.logs'' \<mapsto> (\<lambda>(p, c, q). Inr ((), (p, True, q)))],
      hooks = (\<lambda>k. if k = js ''pre.test.logs'' then [\<lambda>(p, c, q). (True, c, q)]
                   else if k = js ''post.test.logs'' then [\<lambda>(p, c, q). (p, c, True)]
                   else [])\<rparr>
     (Some (js ''test.logs'')) (False, False, False) =
   ([HookCalled (js ''pre.test.logs'') 0, HandlerCalled (js ''test.logs''),
     HookCalled (js ''post.test.logs'') 0],
    Inr ((), (True, True, True)) :: unit dispatch_error + unit \<times> bool \<times> bool \<times> bool)"
  using runCommand_order
    [of "\<lparr>commands = [js ''test.logs'' \<mapsto> (\<lambda>(p, c, q). Inr ((), (p, True, q)))],
           hooks = (\<lambda>k. if k = js ''pre.test.logs'' then [\<lambda>(p, c, q). (True, c, q)]
                        else if k = js ''post.test.logs'' then [\<lambda>(p, c, q). (p, c, True)]
                        else [])\<rparr>"
        "js ''test.logs''" "\<lambda>(p, c, q). Inr ((), (p, True, q))" "(False, False, False)"
        "()" "(True, True, False)"]
  by (simp add: js_def)

text \<open>
  Claim C6: called with no name or the empty name, and called with a name that the
  command registry does not hold, \<open>runCommand\<close> rejects and has invoked no hook and no
  handler.
\<close>

theorem runCommand_fails_fast:
  "(nm = None \<or> nm = Some [] \<longrightarrow> runCommand reg nm st = ([], Inl MissingNameError)) \<and>
   (n \<noteq> [] \<and> commands reg n = None \<longrightarrow>
      runCommand reg (Some n) st = ([], Inl (UnknownCommandError n)))"
  by (auto simp: runCommand_def)

text \<open>The calls of the test: no name, and a name that is not registered.\<close>

theorem runCommand_fails_fast_witness:
  "runCommand
     \<lparr>commands = [js ''test.logs'' \<mapsto> (\<lambda>(p, c, q). Inr ((), (p, True, q)))],
      hooks = (\<lambda>k. if k = js ''pre.test.logs'' then [\<lambda>(p, c, q). (True, c, q)] else [])\<rparr>
     None (False, False, False) =
   ([], Inl MissingNameError :: unit dispatch_error + unit \<times> bool \<times> bool \<times> bool) \<and>
   runCommand
     \<lparr>commands = [js ''test.logs'' \<mapsto> (\<lambda>(p, c, q). Inr ((), (p, True, q)))],
      hooks = (\<lambda>k. if k = js ''pre.test.logs'' then [\<lambda>(p, c, q). (True, c, q)] else [])\<rparr>
     (Some (js ''nonexistent.command'')) (False, False, False) =
   ([], Inl (UnknownCommandError (js ''nonexistent.command'')) ::
          unit dispatch_error + unit \<times> bool \<times> bool \<times> bool)"
  using
    runCommand_fails_fast
      [where nm = None and n = "js ''nonexistent.command''" and st = "(False, False, False)" and
          reg = "\<lparr>commands = [js ''test.logs'' \<mapsto> (\<lambda>(p, c, q). Inr ((), (p, True, q)))],
            hooks = (\<lambda>k. if k = js ''pre.test.logs'' then [\<lambda>(p, c, q). (True, c, q)] else [])\<rparr>"]
  by (simp add: js_def)

end
